theory Spec2Isabelle
  imports Main "HOL-Library.Sublist"
begin

section \<open>Strings\<close>

text \<open>
  JavaScript strings are modelled as \<^typ>\<open>string\<close>. Every test the generators make on
  a string compares it with ASCII characters (quotes, dot, slash, colon), so nothing
  depends on how characters beyond ASCII are encoded; the one operation that does,
  upper-casing, is taken from the environment.
\<close>

definition sq :: char where
  "sq = CHR 0x27"

definition dq :: char where
  "dq = CHR 0x22"

definition nl :: char where
  "nl = CHR 0x0A"

definition slash :: char where
  "slash = CHR ''/''"

text \<open>\<^verbatim>\<open>s.startsWith(p)\<close>\<close>

definition startsWith :: "string \<Rightarrow> string \<Rightarrow> bool" where
  "startsWith s p = prefix p s"

text \<open>\<^verbatim>\<open>xs.join(sep)\<close>\<close>

fun join_with :: "string \<Rightarrow> string list \<Rightarrow> string" where
  "join_with sep [] = []"
| "join_with sep [x] = x"
| "join_with sep (x # y # ys) = x @ sep @ join_with sep (y # ys)"

text \<open>\<^verbatim>\<open>s.split(c)\<close> for a single separator character: the pieces may be empty.\<close>

fun split_on :: "char \<Rightarrow> string \<Rightarrow> string list" where
  "split_on c [] = [[]]"
| "split_on c (x # xs) =
     (if x = c then [] # split_on c xs
      else (case split_on c xs of [] \<Rightarrow> [[x]] | s # ss \<Rightarrow> (x # s) # ss))"

section \<open>The POSIX \<^verbatim>\<open>path\<close> module of Node\<close>

text \<open>
  \<^verbatim>\<open>path.join\<close>, \<^verbatim>\<open>path.dirname\<close>, \<^verbatim>\<open>path.resolve\<close> and \<^verbatim>\<open>path.relative\<close> belong to the
  platform, not to the repository. They are modelled on path segments, following the
  POSIX implementation of Node: a path is cut at its slashes, empty segments and
  \<^verbatim>\<open>.\<close> are dropped, and \<^verbatim>\<open>..\<close> removes the segment before it.

  \<open>norm_segs allowAbove acc segs\<close> is Node's \<^verbatim>\<open>normalizeString\<close>: \<open>acc\<close> holds the segments kept so
  far, last one first, and \<open>allowAbove\<close> is \<^verbatim>\<open>allowAboveRoot\<close> (true for a relative path, which
  may keep leading \<^verbatim>\<open>..\<close> segments).
\<close>

fun norm_segs :: "bool \<Rightarrow> string list \<Rightarrow> string list \<Rightarrow> string list" where
  "norm_segs allowAbove acc [] = rev acc"
| "norm_segs allowAbove acc (s # ss) =
     (if s = [] \<or> s = ''.'' then norm_segs allowAbove acc ss
      else if s = ''..'' then
        (case acc of
           [] \<Rightarrow> norm_segs allowAbove (if allowAbove then [''..''] else []) ss
         | t # acc' \<Rightarrow>
             if t = ''..'' then norm_segs allowAbove (if allowAbove then ''..'' # acc else acc) ss
             else norm_segs allowAbove acc' ss)
      else norm_segs allowAbove (s # acc) ss)"

definition isAbsolute :: "string \<Rightarrow> bool" where
  "isAbsolute p = (case p of [] \<Rightarrow> False | c # _ \<Rightarrow> c = slash)"

text \<open>\<^verbatim>\<open>path.normalize\<close>\<close>

definition path_normalize :: "string \<Rightarrow> string" where
  "path_normalize p =
     (if p = [] then ''.''
      else
        let isAbs = isAbsolute p;
            trailingSeparator = (last p = slash);
            body = join_with ''/'' (norm_segs (\<not> isAbs) [] (split_on slash p))
        in if body = [] then (if isAbs then ''/'' else if trailingSeparator then ''./'' else ''.'')
           else (if isAbs then ''/'' else []) @ body @ (if trailingSeparator then ''/'' else []))"

text \<open>\<^verbatim>\<open>path.join(...args)\<close>: empty arguments are skipped, the rest joined by a slash and normalized.\<close>

definition path_join :: "string list \<Rightarrow> string" where
  "path_join args =
     (let joined = filter (\<lambda>a. a \<noteq> []) args
      in if joined = [] then ''.'' else path_normalize (join_with ''/'' joined))"

text \<open>
  \<^verbatim>\<open>path.dirname\<close>: scanning from the end down to index 1, trailing slashes are skipped,
  then the last segment, and the path is cut at the slash found before it.
\<close>

definition path_dirname :: "string \<Rightarrow> string" where
  "path_dirname p =
     (case p of
        [] \<Rightarrow> ''.''
      | c # q \<Rightarrow>
          let hasRoot = (c = slash);
              r = dropWhile (\<lambda>x. x \<noteq> slash) (dropWhile (\<lambda>x. x = slash) (rev q))
          in (case r of
                [] \<Rightarrow> if hasRoot then ''/'' else ''.''
              | _ # front \<Rightarrow>
                  if hasRoot \<and> front = [] then ''//'' else c # rev front))"

text \<open>
  \<^verbatim>\<open>path.resolve(...args)\<close>: the arguments are taken from the right, then the working
  directory of the process \<open>pcwd\<close>, until an absolute one is met; empty ones are skipped.
  \<open>resolve_loop\<close> returns the concatenation \<^verbatim>\<open>resolvedPath\<close> and the flag
  \<^verbatim>\<open>resolvedAbsolute\<close>.
\<close>

fun resolve_loop :: "string list \<Rightarrow> string \<Rightarrow> string \<times> bool" where
  "resolve_loop [] acc = (acc, False)"
| "resolve_loop (p # ps) acc =
     (if p = [] then resolve_loop ps acc
      else if isAbsolute p then (p @ ''/'' @ acc, True)
      else resolve_loop ps (p @ ''/'' @ acc))"

definition path_resolve :: "string \<Rightarrow> string list \<Rightarrow> string" where
  "path_resolve pcwd args =
     (case resolve_loop (rev args @ [pcwd]) [] of
        (resolvedPath, resolvedAbsolute) \<Rightarrow>
          let body = join_with ''/'' (norm_segs (\<not> resolvedAbsolute) [] (split_on slash resolvedPath))
          in if resolvedAbsolute then ''/'' @ body
             else if body \<noteq> [] then body else ''.'')"

text \<open>The segments of a resolved path.\<close>

definition segments :: "string \<Rightarrow> string list" where
  "segments p = filter (\<lambda>s. s \<noteq> []) (split_on slash p)"

fun strip_common :: "string list \<Rightarrow> string list \<Rightarrow> string list \<times> string list" where
  "strip_common (x # xs) (y # ys) = (if x = y then strip_common xs ys else (x # xs, y # ys))"
| "strip_common xs ys = (xs, ys)"

text \<open>
  \<^verbatim>\<open>path.relative(from, to)\<close>: both paths are resolved; past their longest common
  directory prefix, one \<^verbatim>\<open>..\<close> is emitted for each remaining segment of \<open>from\<close>, followed by
  the remaining segments of \<open>to\<close>. (Node finds the common prefix by comparing characters
  and remembering the last common slash, which is the same on resolved absolute paths;
  the working directory of a POSIX process is absolute.)
\<close>

definition path_relative :: "string \<Rightarrow> string \<Rightarrow> string \<Rightarrow> string" where
  "path_relative pcwd from to =
     (if from = to then []
      else
        let from' = path_resolve pcwd [from];
            to' = path_resolve pcwd [to]
        in if from' = to' then []
           else (case strip_common (segments from') (segments to') of
                   (ups, downs) \<Rightarrow> join_with ''/'' (replicate (length ups) ''..'' @ downs)))"

section \<open>The import-path rewriter\<close>

definition is_quote :: "char \<Rightarrow> bool" where
  "is_quote c = (c = sq \<or> c = dq)"

text \<open>
  One attempt of the regular expression \<^verbatim>\<open>/from ['"]([^'"]+)['"]/\<close> at the start of \<open>s\<close>:
  the literal \<^verbatim>\<open>from \<close>, a quote, the longest run of characters that are not quotes, which
  must not be empty, and a quote (either one: the two need not agree). The result is the
  matched text, the captured group and the text after the match.
\<close>

definition match_from :: "string \<Rightarrow> (string \<times> string \<times> string) option" where
  "match_from s =
     (if prefix ''from '' s then
        (case drop 5 s of
           [] \<Rightarrow> None
         | q # t \<Rightarrow>
             if is_quote q then
               (let p = takeWhile (\<lambda>c. \<not> is_quote c) t
                in case dropWhile (\<lambda>c. \<not> is_quote c) t of
                     [] \<Rightarrow> None
                   | q' # rest \<Rightarrow>
                       if p = [] then None else Some (''from '' @ q # p @ [q'], p, rest))
             else None)
      else None)"

lemma match_from_shorter:
  assumes "match_from s = Some (m, p, rest)"
  shows "length rest < length s"
proof -
  from assms obtain q t q' where t: "drop 5 s = q # t"
    and d: "dropWhile (\<lambda>c. \<not> is_quote c) t = q' # rest"
    by (auto simp: match_from_def Let_def split: if_splits list.splits)
  have "length (dropWhile (\<lambda>c. \<not> is_quote c) t) \<le> length t"
    by (rule length_dropWhile_le)
  with d have "length rest < length t"
    by simp
  moreover have "length (drop 5 s) \<le> length s"
    by simp
  with t have "length t < length s"
    by simp
  ultimately show ?thesis
    by simp
qed

text \<open>
  \<^verbatim>\<open>content.replace(/from ['"]([^'"]+)['"]/g, f)\<close>: the text is scanned from the left; where
  the expression matches, the callback's result replaces the match and the scan goes on
  after it; elsewhere the character is copied.
\<close>

function replace_from :: "(string \<Rightarrow> string \<Rightarrow> string) \<Rightarrow> string \<Rightarrow> string" where
  "replace_from f s =
     (case match_from s of
        Some (m, p, rest) \<Rightarrow> f m p @ replace_from f rest
      | None \<Rightarrow> (case s of [] \<Rightarrow> [] | c # cs \<Rightarrow> c # replace_from f cs))"
  by pat_completeness auto
termination
  by (relation "measure (\<lambda>(f, s). length s)") (auto dest: match_from_shorter)

declare replace_from.simps [simp del]

text \<open>
  The callback of \<^verbatim>\<open>processImportPaths\<close>: a specifier that starts with a dot is resolved
  from the directory of the source file and expressed relative to the directory of the
  destination file; \<^verbatim>\<open>./\<close> is put in front unless the relative path starts with a dot.
\<close>

definition normalizedPath :: "string \<Rightarrow> string \<Rightarrow> string \<Rightarrow> string \<Rightarrow> string" where
  "normalizedPath pcwd sourcePath destPath importPath =
     (let relativePath =
            path_relative pcwd (path_dirname destPath)
              (path_resolve pcwd [path_dirname sourcePath, importPath])
      in if startsWith relativePath ''.'' then relativePath else ''./'' @ relativePath)"

definition rewrite_import :: "string \<Rightarrow> string \<Rightarrow> string \<Rightarrow> string \<Rightarrow> string \<Rightarrow> string" where
  "rewrite_import pcwd sourcePath destPath match importPath =
     (if startsWith importPath ''.''
      then ''from '' @ [sq] @ normalizedPath pcwd sourcePath destPath importPath @ [sq]
      else match)"

definition processImportPaths :: "string \<Rightarrow> string \<Rightarrow> string \<Rightarrow> string \<Rightarrow> string" where
  "processImportPaths pcwd content sourcePath destPath =
     replace_from (rewrite_import pcwd sourcePath destPath) content"

text \<open>
  The same scan, keeping what it found: each character copied (\<open>Inl\<close>) and each match
  with its captured specifier (\<open>Inr\<close>), in the order of the text.
\<close>

function scan_from :: "string \<Rightarrow> (char + string \<times> string) list" where
  "scan_from s =
     (case match_from s of
        Some (m, p, rest) \<Rightarrow> Inr (m, p) # scan_from rest
      | None \<Rightarrow> (case s of [] \<Rightarrow> [] | c # cs \<Rightarrow> Inl c # scan_from cs))"
  by pat_completeness auto
termination
  by (relation "measure length") (auto dest: match_from_shorter)

declare scan_from.simps [simp del]

text \<open>Whether the text holds \<^verbatim>\<open>from \<close> followed by a quote anywhere.\<close>

fun has_from_quote :: "string \<Rightarrow> bool" where
  "has_from_quote [] = False"
| "has_from_quote (c # cs) =
     ((prefix ''from '' (c # cs) \<and> (case drop 5 (c # cs) of [] \<Rightarrow> False | q # _ \<Rightarrow> is_quote q))
      \<or> has_from_quote cs)"

definition quote_free :: "string \<Rightarrow> bool" where
  "quote_free s = (\<forall>c \<in> set s. \<not> is_quote c)"

text \<open>A segment that \<open>norm_segs\<close> keeps as it is.\<close>

definition normal_seg :: "string \<Rightarrow> bool" where
  "normal_seg s = (s \<noteq> [] \<and> s \<noteq> ''.'' \<and> s \<noteq> ''..'' \<and> slash \<notin> set s)"

text \<open>The segments of \<open>a\<close> resolved against the working directory.\<close>

definition abs_segs :: "string \<Rightarrow> string \<Rightarrow> string list" where
  "abs_segs pcwd a = norm_segs False [] (split_on slash (if isAbsolute a then a else pcwd @ ''/'' @ a))"

text \<open>A text the expression matches in full, with its captured group.\<close>

definition is_match :: "string \<Rightarrow> string \<Rightarrow> bool" where
  "is_match m p = (\<exists>q q'. is_quote q \<and> is_quote q' \<and> p \<noteq> [] \<and> quote_free p \<and>
                     m = ''from '' @ q # p @ [q'])"

section \<open>Configuration objects and their serialization\<close>

text \<open>
  The type \<^verbatim>\<open>Config\<close> belongs to the module \<^verbatim>\<open>./config\<close>. A
  configuration is modelled by the data \<^verbatim>\<open>JSON.stringify\<close> sees: the own properties of the
  object, in their order, with JSON values. The numbers of the model are the integers
  that \<^verbatim>\<open>Number.isSafeInteger\<close> accepts, which are printed digit by digit; a fraction, a
  larger number, \<^verbatim>\<open>NaN\<close> or an infinity is not a value of the model. \<open>safe_of i\<close> is the
  number \<open>i\<close> for an integer of that range (and zero for any other).
\<close>

typedef safe_int = "{i :: int. - 9007199254740991 \<le> i \<and> i \<le> 9007199254740991}"
  morphisms int_of safe_int
  by (rule exI [of _ 0]) simp

setup_lifting type_definition_safe_int

lift_definition safe_of :: "int \<Rightarrow> safe_int" is
  "\<lambda>i. if - 9007199254740991 \<le> i \<and> i \<le> 9007199254740991 then i else 0"
  by simp

datatype json =
    JNull
  | JBool bool
  | JNum safe_int
  | JStr string
  | JArr "json list"
  | JObj "(string \<times> json) list"

type_synonym Config = "(string \<times> json) list"

text \<open>Truthiness of a property that may be absent (\<^verbatim>\<open>undefined\<close>).\<close>

fun truthy :: "json option \<Rightarrow> bool" where
  "truthy None = False"
| "truthy (Some JNull) = False"
| "truthy (Some (JBool b)) = b"
| "truthy (Some (JNum n)) = (int_of n \<noteq> 0)"
| "truthy (Some (JStr s)) = (s \<noteq> [])"
| "truthy (Some (JArr xs)) = True"
| "truthy (Some (JObj kvs)) = True"

text \<open>\<^verbatim>\<open>obj[k] = v\<close>: an existing property keeps its place, a new one goes to the end.\<close>

fun set_prop :: "string \<Rightarrow> json \<Rightarrow> (string \<times> json) list \<Rightarrow> (string \<times> json) list" where
  "set_prop k v [] = [(k, v)]"
| "set_prop k v ((k', v') # kvs) =
     (if k' = k then (k, v) # kvs else (k', v') # set_prop k v kvs)"

definition digit_char :: "nat \<Rightarrow> char" where
  "digit_char n = char_of (48 + n)"

fun show_nat :: "nat \<Rightarrow> string" where
  "show_nat n = (if n < 10 then [digit_char n] else show_nat (n div 10) @ [digit_char (n mod 10)])"

declare show_nat.simps [simp del]

definition show_int :: "int \<Rightarrow> string" where
  "show_int i = (if i < 0 then ''-'' @ show_nat (nat (- i)) else show_nat (nat i))"

text \<open>
  \<^verbatim>\<open>{...v}\<close>: the own enumerable properties of a value; an array and a string spread
  their indices.
\<close>

fun spread :: "json option \<Rightarrow> (string \<times> json) list" where
  "spread (Some (JObj kvs)) = kvs"
| "spread (Some (JArr xs)) = zip (map show_nat [0 ..< length xs]) xs"
| "spread (Some (JStr s)) = zip (map show_nat [0 ..< length s]) (map (\<lambda>c. JStr [c]) s)"
| "spread _ = []"

definition hex_char :: "nat \<Rightarrow> char" where
  "hex_char n = (if n < 10 then char_of (48 + n) else char_of (87 + n))"

text \<open>\<^verbatim>\<open>QuoteJSONString\<close>: the escapes of a string in JSON text.\<close>

definition escape_char :: "char \<Rightarrow> string" where
  "escape_char c =
     (if c = dq then [CHR 0x5C, dq]
      else if c = CHR 0x5C then [CHR 0x5C, CHR 0x5C]
      else if c = CHR 0x08 then [CHR 0x5C, CHR ''b'']
      else if c = CHR 0x0C then [CHR 0x5C, CHR ''f'']
      else if c = CHR 0x0A then [CHR 0x5C, CHR ''n'']
      else if c = CHR 0x0D then [CHR 0x5C, CHR ''r'']
      else if c = CHR 0x09 then [CHR 0x5C, CHR ''t'']
      else if (of_char c :: nat) < 32
        then [CHR 0x5C, CHR ''u'', CHR ''0'', CHR ''0'',
              hex_char (of_char c div 16), hex_char (of_char c mod 16)]
      else [c])"

definition json_body :: "string \<Rightarrow> string" where
  "json_body s = concat (map escape_char s)"

definition quote_json :: "string \<Rightarrow> string" where
  "quote_json s = [dq] @ json_body s @ [dq]"

definition indent :: "nat \<Rightarrow> string" where
  "indent n = replicate n (CHR '' '')"

text \<open>
  \<^verbatim>\<open>JSON.stringify(value, null, 2)\<close> at the indentation \<open>ind\<close>: the members of a non-empty
  array or object are put one per line, two spaces deeper, separated by a comma; a key is
  followed by a colon and a space.
\<close>

fun stringify :: "nat \<Rightarrow> json \<Rightarrow> string" where
  "stringify ind JNull = ''null''"
| "stringify ind (JBool b) = (if b then ''true'' else ''false'')"
| "stringify ind (JNum n) = show_int (int_of n)"
| "stringify ind (JStr s) = quote_json s"
| "stringify ind (JArr xs) =
     (if xs = [] then ''[]''
      else ''['' @ [nl]
        @ join_with ('','' @ [nl]) (map (\<lambda>x. indent (ind + 2) @ stringify (ind + 2) x) xs)
        @ [nl] @ indent ind @ '']'')"
| "stringify ind (JObj kvs) =
     (if kvs = [] then ''{}''
      else ''{'' @ [nl]
        @ join_with ('','' @ [nl])
            (map (\<lambda>kv. indent (ind + 2) @ quote_json (fst kv) @ '': '' @ stringify (ind + 2) (snd kv)) kvs)
        @ [nl] @ indent ind @ ''}'')"

text \<open>
  What the spec calls the serialization with the keys of objects unquoted: the same
  text, each key written as in JSON but without its two quotes.
\<close>

fun stringify_keys_unquoted :: "nat \<Rightarrow> json \<Rightarrow> string" where
  "stringify_keys_unquoted ind JNull = ''null''"
| "stringify_keys_unquoted ind (JBool b) = (if b then ''true'' else ''false'')"
| "stringify_keys_unquoted ind (JNum n) = show_int (int_of n)"
| "stringify_keys_unquoted ind (JStr s) = quote_json s"
| "stringify_keys_unquoted ind (JArr xs) =
     (if xs = [] then ''[]''
      else ''['' @ [nl]
        @ join_with ('','' @ [nl])
            (map (\<lambda>x. indent (ind + 2) @ stringify_keys_unquoted (ind + 2) x) xs)
        @ [nl] @ indent ind @ '']'')"
| "stringify_keys_unquoted ind (JObj kvs) =
     (if kvs = [] then ''{}''
      else ''{'' @ [nl]
        @ join_with ('','' @ [nl])
            (map (\<lambda>kv. indent (ind + 2) @ json_body (fst kv) @ '': ''
                        @ stringify_keys_unquoted (ind + 2) (snd kv)) kvs)
        @ [nl] @ indent ind @ ''}'')"

text \<open>
  A string with no double quote that does not begin with a colon, and a value all of
  whose strings are such, its keys being non-empty as well.
\<close>

definition not_colon_first :: "string \<Rightarrow> bool" where
  "not_colon_first t = (case t of [] \<Rightarrow> True | c # _ \<Rightarrow> c \<noteq> CHR '':'')"

definition plain_string :: "string \<Rightarrow> bool" where
  "plain_string s = (dq \<notin> set s \<and> not_colon_first s)"

fun plain_json :: "json \<Rightarrow> bool" where
  "plain_json (JStr s) = plain_string s"
| "plain_json (JArr xs) = list_all plain_json xs"
| "plain_json (JObj kvs) =
     list_all (\<lambda>kv. fst kv \<noteq> [] \<and> plain_string (fst kv) \<and> plain_json (snd kv)) kvs"
| "plain_json _ = True"

text \<open>Whether the first double quote of a text, if it has one, is not followed by a colon.\<close>

definition calm :: "string \<Rightarrow> bool" where
  "calm t = (case dropWhile (\<lambda>c. c \<noteq> dq) t of _ # c # _ \<Rightarrow> c \<noteq> CHR '':'' | _ \<Rightarrow> True)"

text \<open>
  One attempt of \<^verbatim>\<open>/"([^"]+)":/\<close> at the start of \<open>s\<close>: a double quote, the longest run of
  characters other than the double quote, which must not be empty, a double quote and a
  colon. The result is the captured group and the text after the match.
\<close>

definition match_key :: "string \<Rightarrow> (string \<times> string) option" where
  "match_key s =
     (case s of
        [] \<Rightarrow> None
      | q # t \<Rightarrow>
          if q = dq then
            (let k = takeWhile (\<lambda>c. c \<noteq> dq) t
             in case dropWhile (\<lambda>c. c \<noteq> dq) t of
                  _ # c # rest \<Rightarrow> if k \<noteq> [] \<and> c = CHR '':'' then Some (k, rest) else None
                | _ \<Rightarrow> None)
          else None)"

lemma match_key_shorter:
  assumes "match_key s = Some (k, rest)"
  shows "length rest < length s"
proof -
  from assms obtain q t x c where s: "s = q # t"
    and d: "dropWhile (\<lambda>c. c \<noteq> dq) t = x # c # rest"
    by (auto simp: match_key_def Let_def split: if_splits list.splits)
  have "length (dropWhile (\<lambda>c. c \<noteq> dq) t) \<le> length t"
    by (rule length_dropWhile_le)
  with d s show ?thesis
    by simp
qed

text \<open>\<^verbatim>\<open>text.replace(/"([^"]+)":/g, '$1:')\<close>\<close>

function unquote_keys :: "string \<Rightarrow> string" where
  "unquote_keys s =
     (case match_key s of
        Some (k, rest) \<Rightarrow> k @ '':'' @ unquote_keys rest
      | None \<Rightarrow> (case s of [] \<Rightarrow> [] | c # cs \<Rightarrow> c # unquote_keys cs))"
  by pat_completeness auto
termination
  by (relation "measure length") (auto dest: match_key_shorter)

declare unquote_keys.simps [simp del]

section \<open>The world of a command\<close>

text \<open>
  The file system holds the content of each file and the set of directories, both by
  path. A world is the file system and the trace of what the command did, oldest first.
\<close>

record fsys =
  files :: "string \<rightharpoonup> string"
  dirs :: "string set"

text \<open>An error is held by its message; \<open>IOError\<close> is an \<^verbatim>\<open>Error\<close> raised by the file system.\<close>

datatype error =
    AssertionError string
  | Error string
  | TypeError string
  | IOError string

datatype event =
    Select string "string list"
  | Confirm string
  | LoadConfig string
  | Sync Config string string string
  | EnsureDir string
  | ReadFile string
  | WriteFile string string
  | Log string
  | Unhandled error

record world =
  fs :: fsys
  events :: "event list"

text \<open>
  What the generators get from outside: the working directory of the process (used by
  \<^verbatim>\<open>path.resolve\<close>); the answers of the user to the prompts of \<^verbatim>\<open>@clack/prompts\<close> and, of
  two questions that are on the screen together, whether the first is answered first;
  the colour drawn by \<^verbatim>\<open>random-color\<close>; the upper-casing of the language
  (\<^verbatim>\<open>toUpperCase\<close>, whose table is Unicode's); whether writing a path or creating a
  directory raises, and the message of the error that an operation of the file system
  (\<^verbatim>\<open>ensureDir\<close>, \<^verbatim>\<open>writeFile\<close>, \<^verbatim>\<open>readFile\<close>) raises on a path when it fails; and the
  functions and constants of three other modules, taken as parameters: \<^verbatim>\<open>loadConfig\<close> of
  \<^verbatim>\<open>./config\<close>, \<^verbatim>\<open>sync\<close> of \<^verbatim>\<open>./sync\<close> (each a function of the file system, \<^verbatim>\<open>sync\<close> with an
  effect on it), and the constants \<^verbatim>\<open>CONFIG_FILE\<close> and \<^verbatim>\<open>FRAMEWORK_NAME\<close> of \<^verbatim>\<open>./constants\<close>.
\<close>

record env =
  processCwd :: string
  confirm :: "string \<Rightarrow> bool"
  answeredFirst :: "string \<Rightarrow> string \<Rightarrow> bool"
  select :: "string \<Rightarrow> string list \<Rightarrow> string"
  randomColor :: string
  toUpperCase :: "string \<Rightarrow> string"
  writeFails :: "string \<Rightarrow> bool"
  mkdirFails :: "string \<Rightarrow> bool"
  errorMessage :: "string \<Rightarrow> string \<Rightarrow> string"
  loadConfig :: "string \<Rightarrow> fsys \<Rightarrow> Config"
  sync :: "Config \<Rightarrow> string \<Rightarrow> string \<Rightarrow> string \<Rightarrow> fsys \<Rightarrow> fsys"
  CONFIG_FILE :: string
  FRAMEWORK_NAME :: string

definition emit :: "event \<Rightarrow> world \<Rightarrow> world" where
  "emit e w = w\<lparr>events := events w @ [e]\<rparr>"

text \<open>\<^verbatim>\<open>fs.existsSync\<close>: a file or a directory at the path.\<close>

definition existsSync :: "world \<Rightarrow> string \<Rightarrow> bool" where
  "existsSync w p = (files (fs w) p \<noteq> None \<or> p \<in> dirs (fs w))"

text \<open>
  A path and the directories above it, as \<^verbatim>\<open>path.dirname\<close> gives them one after the other
  (it shortens a path until it is \<^verbatim>\<open>/\<close> or \<^verbatim>\<open>.\<close>, which it leaves as they are).
\<close>

definition ancestors :: "string \<Rightarrow> string list" where
  "ancestors p = map (\<lambda>k. (path_dirname ^^ k) p) [0 ..< Suc (length p)]"

text \<open>\<^verbatim>\<open>fs.ensureDirSync\<close>: the directory is created with the directories above it that are missing.\<close>

definition ensureDirSync :: "env \<Rightarrow> string \<Rightarrow> world \<Rightarrow> (error + unit) \<times> world" where
  "ensureDirSync E p w =
     (let w' = emit (EnsureDir p) w
      in if mkdirFails E p then (Inl (IOError (errorMessage E ''ensureDir'' p)), w')
         else (Inr (), w'\<lparr>fs := (fs w')\<lparr>dirs := set (ancestors p) \<union> dirs (fs w')\<rparr>\<rparr>))"

text \<open>
  \<^verbatim>\<open>fs.writeFile\<close> and \<^verbatim>\<open>fs.writeFileSync\<close>: the content replaces what the file held. The
  event stands for the call, in the order of the calls; the file is written by the time
  the caller that awaits the call goes on.
\<close>

definition writeFile :: "env \<Rightarrow> string \<Rightarrow> string \<Rightarrow> world \<Rightarrow> (error + unit) \<times> world" where
  "writeFile E p content w =
     (let w' = emit (WriteFile p content) w
      in if writeFails E p then (Inl (IOError (errorMessage E ''writeFile'' p)), w')
         else (Inr (), w'\<lparr>fs := (fs w')\<lparr>files := (files (fs w'))(p \<mapsto> content)\<rparr>\<rparr>))"

text \<open>\<^verbatim>\<open>fs.readFile(p, 'utf-8')\<close>: it raises when no file is at the path.\<close>

definition readFile :: "env \<Rightarrow> string \<Rightarrow> world \<Rightarrow> (error + string) \<times> world" where
  "readFile E p w =
     (let w' = emit (ReadFile p) w
      in case files (fs w) p of
           None \<Rightarrow> (Inl (IOError (errorMessage E ''readFile'' p)), w')
         | Some content \<Rightarrow> (Inr content, w'))"

definition console_log :: "string \<Rightarrow> world \<Rightarrow> world" where
  "console_log msg w = emit (Log msg) w"

text \<open>The text of an error inside a template string: its name, a colon and its message.\<close>

fun error_text :: "error \<Rightarrow> string" where
  "error_text (AssertionError m) = ''AssertionError [ERR_ASSERTION]: '' @ m"
| "error_text (Error m) = ''Error: '' @ m"
| "error_text (TypeError m) = ''TypeError: '' @ m"
| "error_text (IOError m) = ''Error: '' @ m"

section \<open>The generators\<close>

record GenerateOptions =
  cwd :: string
  type :: "string option"
  name :: "string option"
  config :: Config

record FileOperationResult =
  path :: string
  success :: bool
  message :: string

text \<open>\<^verbatim>\<open>!s\<close> for a string that may be \<^verbatim>\<open>undefined\<close>.\<close>

definition falsy :: "string option \<Rightarrow> bool" where
  "falsy s = (s = None \<or> s = Some [])"

definition pageContent :: "string \<Rightarrow> string \<Rightarrow> string" where
  "pageContent pageName componentName =
     ''import React from 'react';'' @ [nl]
     @ ''import { createFileRoute } from '@umijs/tnf/router';'' @ [nl]
     @ ''import styles from './'' @ pageName @ ''.module.less'' @ [sq] @ '';'' @ [nl]
     @ [nl]
     @ ''export const Route = createFileRoute('/'' @ pageName @ [sq] @ '')({'' @ [nl]
     @ ''  component: '' @ componentName @ '','' @ [nl]
     @ ''});'' @ [nl]
     @ [nl]
     @ ''function '' @ componentName @ ''() {'' @ [nl]
     @ ''  return ('' @ [nl]
     @ ''    <div className={styles.container}>'' @ [nl]
     @ ''      <h3>Welcome to '' @ componentName @ '' Page!</h3>'' @ [nl]
     @ ''    </div>'' @ [nl]
     @ ''  );'' @ [nl]
     @ ''}'' @ [nl]"

definition styleContent :: "string \<Rightarrow> string" where
  "styleContent color =
     ''.container {'' @ [nl] @ ''  color: '' @ color @ '';'' @ [nl] @ ''}'' @ [nl]"

definition generatePage :: "env \<Rightarrow> GenerateOptions \<Rightarrow> world \<Rightarrow> (error + unit) \<times> world" where
  "generatePage E opts w =
     (if falsy (name opts) then (Inl (AssertionError ''Name is required''), w)
      else
        let pagesDir = path_join [cwd opts, ''src/pages''];
            pageName = the (name opts);
            pagePath = path_join [pagesDir, pageName @ ''.tsx''];
            styleModulePath = path_join [pagesDir, pageName @ ''.module.less'']
        in if \<not> (\<not> existsSync w pagePath \<and> \<not> existsSync w styleModulePath)
           then (Inl (AssertionError (''Page '' @ pageName @ '' already exists.'')), w)
           else
             (case ensureDirSync E pagesDir w of
                (Inl e, w1) \<Rightarrow> (Inl e, w1)
              | (Inr _, w1) \<Rightarrow>
                  let componentName = toUpperCase E [hd pageName] @ tl pageName
                  in (case writeFile E pagePath (pageContent pageName componentName) w1 of
                        (Inl e, w2) \<Rightarrow> (Inl e, w2)
                      | (Inr _, w2) \<Rightarrow>
                          (case writeFile E styleModulePath (styleContent (randomColor E)) w2 of
                             (Inl e, w3) \<Rightarrow> (Inl e, w3)
                           | (Inr _, w3) \<Rightarrow>
                               (Inr (),
                                console_log (''Generated styles at: '' @ styleModulePath)
                                  (console_log (''Generated page at: '' @ pagePath) w3))))))"

definition updateConfigFile :: "env \<Rightarrow> string \<Rightarrow> Config \<Rightarrow> world \<Rightarrow> FileOperationResult \<times> world" where
  "updateConfigFile E cwd' config' w =
     (let configPath = path_join [cwd', CONFIG_FILE E @ ''.ts''];
          configContent = ''export default '' @ unquote_keys (stringify 0 (JObj config'))
      in case writeFile E configPath configContent w of
           (Inr _, w') \<Rightarrow>
             (\<lparr>path = configPath, success = True,
               message = ''Updated config file at: '' @ CONFIG_FILE E @ ''.ts''\<rparr>, w')
         | (Inl e, w') \<Rightarrow>
             (\<lparr>path = configPath, success = False,
               message = ''Failed to update config file: '' @ error_text e\<rparr>, w'))"

definition writeFileWithConfirmation ::
    "env \<Rightarrow> string \<Rightarrow> string \<Rightarrow> string \<Rightarrow> world \<Rightarrow> FileOperationResult \<times> world" where
  "writeFileWithConfirmation E filePath content confirmMessage w =
     (let asked = existsSync w filePath;
          w1 = (if asked then emit (Confirm confirmMessage) w else w)
      in if asked \<and> \<not> confirm E confirmMessage
         then (\<lparr>path = filePath, success = False,
                 message = ''Skipped writing to '' @ filePath\<rparr>, w1)
         else
           (case writeFile E filePath content w1 of
              (Inr _, w2) \<Rightarrow>
                (\<lparr>path = filePath, success = True,
                  message = ''Generated file at: '' @ filePath\<rparr>, w2)
            | (Inl e, w2) \<Rightarrow>
                (\<lparr>path = filePath, success = False,
                  message = ''Failed to write file: '' @ error_text e\<rparr>, w2)))"

definition tailwindConfig :: string where
  \<open>tailwindConfig =
     ''/** @type {import('tailwindcss').Config} */'' @ [nl]
     @ ''export default {'' @ [nl]
     @ ''  content: ['' @ [nl]
     @ ''    "./src/pages/**/*.{js,ts,jsx,tsx}",'' @ [nl]
     @ ''    "./src/components/**/*.{js,ts,jsx,tsx}"'' @ [nl]
     @ ''  ],'' @ [nl]
     @ ''  theme: {'' @ [nl]
     @ ''    extend: {},'' @ [nl]
     @ ''  },'' @ [nl]
     @ ''  plugins: [],'' @ [nl]
     @ ''}''\<close>

definition tailwindCSS :: string where
  "tailwindCSS =
     ''@tailwind base;'' @ [nl] @ ''@tailwind components;'' @ [nl] @ ''@tailwind utilities;''"

text \<open>The messages of the results that succeeded are logged, in order.\<close>

definition log_successes :: "FileOperationResult list \<Rightarrow> world \<Rightarrow> world" where
  "log_successes results w = fold (\<lambda>r. console_log (message r)) (filter success results) w"

text \<open>
  The writer in the pieces that two calls made together interleave. \<open>attempt_write\<close> is its
  \<^verbatim>\<open>try\<close> statement: the write and the result made of its outcome. \<open>until_await\<close> is a call
  up to its first \<^verbatim>\<open>await\<close>, which it reaches before its caller goes on: where something
  exists the question is put and the call waits for the answer (no result yet), otherwise
  \<^verbatim>\<open>fs.writeFile\<close> is called. \<open>from_answer\<close> is what a call that has put its question does
  once the answer is there.
\<close>

definition attempt_write :: "env \<Rightarrow> string \<Rightarrow> string \<Rightarrow> world \<Rightarrow> FileOperationResult \<times> world" where
  "attempt_write E filePath content w =
     (case writeFile E filePath content w of
        (Inr _, w') \<Rightarrow>
          (\<lparr>path = filePath, success = True,
            message = ''Generated file at: '' @ filePath\<rparr>, w')
      | (Inl e, w') \<Rightarrow>
          (\<lparr>path = filePath, success = False,
            message = ''Failed to write file: '' @ error_text e\<rparr>, w'))"

definition until_await ::
    "env \<Rightarrow> string \<Rightarrow> string \<Rightarrow> string \<Rightarrow> world \<Rightarrow> FileOperationResult option \<times> world" where
  "until_await E filePath content confirmMessage w =
     (if existsSync w filePath then (None, emit (Confirm confirmMessage) w)
      else (case attempt_write E filePath content w of (r, w') \<Rightarrow> (Some r, w')))"

definition from_answer ::
    "env \<Rightarrow> string \<Rightarrow> string \<Rightarrow> string \<Rightarrow> world \<Rightarrow> FileOperationResult \<times> world" where
  "from_answer E filePath content confirmMessage w =
     (if \<not> confirm E confirmMessage
      then (\<lparr>path = filePath, success = False,
              message = ''Skipped writing to '' @ filePath\<rparr>, w)
      else attempt_write E filePath content w)"

text \<open>
  \<^verbatim>\<open>Promise.all\<close> of two calls of the writer: the first call runs up to its first \<^verbatim>\<open>await\<close>,
  then the second does; a call that waits for its answer goes on when the answer comes,
  and of two that wait the one answered first goes on first. The results are in the
  order of the calls, whichever finished first.
\<close>

definition writeFileWithConfirmation_all ::
    "env \<Rightarrow> string \<Rightarrow> string \<Rightarrow> string \<Rightarrow> string \<Rightarrow> string \<Rightarrow> string \<Rightarrow> world
     \<Rightarrow> FileOperationResult list \<times> world" where
  "writeFileWithConfirmation_all E path1 content1 message1 path2 content2 message2 w =
     (case until_await E path1 content1 message1 w of (x1, w1) \<Rightarrow>
      case until_await E path2 content2 message2 w1 of (x2, w2) \<Rightarrow>
        (case (x1, x2) of
           (Some r1, Some r2) \<Rightarrow> ([r1, r2], w2)
         | (Some r1, None) \<Rightarrow>
             (case from_answer E path2 content2 message2 w2 of (r2, w3) \<Rightarrow> ([r1, r2], w3))
         | (None, Some r2) \<Rightarrow>
             (case from_answer E path1 content1 message1 w2 of (r1, w3) \<Rightarrow> ([r1, r2], w3))
         | (None, None) \<Rightarrow>
             if answeredFirst E message1 message2
             then (case from_answer E path1 content1 message1 w2 of (r1, w3) \<Rightarrow>
                   case from_answer E path2 content2 message2 w3 of (r2, w4) \<Rightarrow> ([r1, r2], w4))
             else (case from_answer E path2 content2 message2 w2 of (r2, w3) \<Rightarrow>
                   case from_answer E path1 content1 message1 w3 of (r1, w4) \<Rightarrow> ([r1, r2], w4))))"

text \<open>
  The two writes of \<^verbatim>\<open>generateTailwindcss\<close> are started together and awaited together;
  the configuration is updated once both have settled. The function returns the
  configuration object it was given, as it left it.
\<close>

definition generateTailwindcss :: "env \<Rightarrow> GenerateOptions \<Rightarrow> world \<Rightarrow> (error + Config) \<times> world" where
  "generateTailwindcss E opts w =
     (case ensureDirSync E (path_join [cwd opts, ''src'']) w of
        (Inl e, w0) \<Rightarrow> (Inl e, w0)
      | (Inr _, w0) \<Rightarrow>
          let tailwindConfigPath = path_join [cwd opts, ''tailwind.config.js''];
              tailwindCSSPath = path_join [cwd opts, ''src/tailwind.css''];
              (results, w2) = writeFileWithConfirmation_all E
                tailwindConfigPath tailwindConfig
                ''Tailwind config file already exists, do you want to overwrite?''
                tailwindCSSPath tailwindCSS
                ''Tailwind CSS file already exists, do you want to overwrite?'' w0;
              config' = set_prop ''tailwindcss'' (JBool True) (config opts);
              (configResult, w3) = updateConfigFile E (cwd opts) config' w2
          in (Inr config', log_successes (results @ [configResult]) w3))"

definition sync_world :: "env \<Rightarrow> Config \<Rightarrow> string \<Rightarrow> string \<Rightarrow> string \<Rightarrow> world \<Rightarrow> world" where
  "sync_world E config' cwd' tmpPath mode w =
     (emit (Sync config' cwd' tmpPath mode) w)\<lparr>fs := sync E config' cwd' tmpPath mode (fs w)\<rparr>"

definition generateEntry :: "env \<Rightarrow> GenerateOptions \<Rightarrow> world \<Rightarrow> (error + Config) \<times> world" where
  "generateEntry E opts w =
     (let tnfPath = path_join [cwd opts, ''src/.'' @ FRAMEWORK_NAME E];
          clientSrcPath = path_join [tnfPath, ''client.tsx''];
          clientDestPath = path_join [cwd opts, ''src/client.tsx''];
          w1 = (if \<not> existsSync w tnfPath
                then sync_world E (loadConfig E (cwd opts) (fs w)) (cwd opts) tnfPath ''development''
                       (emit (LoadConfig (cwd opts)) w)
                else w)
      in if \<not> existsSync w1 clientSrcPath
         then (Inl (Error ''client.tsx template not found in .tnf directory''), w1)
         else
           (case readFile E clientSrcPath w1 of
              (Inl e, w2) \<Rightarrow> (Inl e, w2)
            | (Inr content, w2) \<Rightarrow>
                let processedContent = processImportPaths (processCwd E) content clientSrcPath clientDestPath;
                    (writeResult, w3) = writeFileWithConfirmation E clientDestPath processedContent
                      ''client.tsx already exists. Do you want to overwrite it?'' w2
                in if success writeResult then
                     let config' = set_prop ''entry''
                           (JObj (set_prop ''client'' (JStr ''src/client.tsx'')
                              (spread (map_of (config opts) ''entry''))))
                           (config opts);
                         (configResult, w4) = updateConfigFile E (cwd opts) config' w3;
                         w5 = console_log (message writeResult) w4
                     in (Inr config',
                         if success configResult then console_log (message configResult) w5 else w5)
                   else (Inr (config opts), w3)))"

section \<open>The dispatchers\<close>

definition generateCommands :: "string list" where
  "generateCommands = [''entry'', ''tailwindcss'']"

text \<open>
  \<^verbatim>\<open>selectedType in commandHandler\<close> holds for the three keys of the table and for the
  properties every object inherits from \<^verbatim>\<open>Object.prototype\<close>.
\<close>

definition inherited_keys :: "string list" where
  "inherited_keys =
     [''constructor'', ''__defineGetter__'', ''__defineSetter__'', ''hasOwnProperty'',
      ''__lookupGetter__'', ''__lookupSetter__'', ''isPrototypeOf'', ''propertyIsEnumerable'',
      ''toString'', ''valueOf'', ''__proto__'', ''toLocaleString'']"

definition in_commandHandler :: "string \<Rightarrow> bool" where
  "in_commandHandler s = (s \<in> set [''page'', ''tailwindcss'', ''entry''] \<or> s \<in> set inherited_keys)"

text \<open>
  \<^verbatim>\<open>rawConfig.entry.client = 'src/client.tsx'\<close> when \<^verbatim>\<open>rawConfig.entry\<close> is truthy, a fresh
  \<^verbatim>\<open>entry\<close> otherwise. On an array the property is set but is no part of its JSON; on a
  string, a number or \<^verbatim>\<open>true\<close> the assignment raises, the module being in strict mode.
\<close>

definition force_client_entry :: "Config \<Rightarrow> error + Config" where
  "force_client_entry rawConfig =
     (if truthy (map_of rawConfig ''entry'') then
        (case map_of rawConfig ''entry'' of
           Some (JObj e) \<Rightarrow>
             Inr (set_prop ''entry'' (JObj (set_prop ''client'' (JStr ''src/client.tsx'') e)) rawConfig)
         | Some (JArr xs) \<Rightarrow> Inr rawConfig
         | _ \<Rightarrow> Inl (TypeError ''Cannot create property 'client' on a primitive value''))
      else Inr (set_prop ''entry'' (JObj [(''client'', JStr ''src/client.tsx'')]) rawConfig))"

text \<open>
  The handler is called and its promise is not awaited: \<^verbatim>\<open>generate\<close> resolves whatever
  becomes of an asynchronous handler, whose rejection is left unhandled. The world
  returned is the one after the handler has run to its end.
\<close>

definition detached :: "(error + 'a) \<times> world \<Rightarrow> (error + unit) \<times> world" where
  "detached r = (case r of (Inl e, w) \<Rightarrow> (Inr (), emit (Unhandled e) w) | (Inr _, w) \<Rightarrow> (Inr (), w))"

definition call_inherited :: "string \<Rightarrow> world \<Rightarrow> (error + unit) \<times> world" where
  "call_inherited s w =
     (if s \<in> set [''__defineGetter__'', ''__defineSetter__'', ''__proto__'']
      then (Inl (TypeError s), w) else (Inr (), w))"

definition generate :: "env \<Rightarrow> GenerateOptions \<Rightarrow> world \<Rightarrow> (error + unit) \<times> world" where
  "generate E opts w =
     (let asked = falsy (type opts);
          selectedType =
            (if asked then select E ''Select the command to initialize:'' generateCommands
             else the (type opts));
          w1 = (if asked then emit (Select ''Select the command to initialize:'' generateCommands) w
                else w)
      in if \<not> in_commandHandler selectedType
         then (Inl (Error (''Unknown command: '' @ selectedType)), w1)
         else
           (case force_client_entry (loadConfig E (cwd opts) (fs w1)) of
              Inl e \<Rightarrow> (Inl e, emit (LoadConfig (cwd opts)) w1)
            | Inr rawConfig \<Rightarrow>
                let w2 = emit (LoadConfig (cwd opts)) w1;
                    opts' = opts\<lparr>config := rawConfig\<rparr>
                in if selectedType = ''page'' then generatePage E opts' w2
                   else if selectedType = ''tailwindcss'' then detached (generateTailwindcss E opts' w2)
                   else if selectedType = ''entry'' then detached (generateEntry E opts' w2)
                   else call_inherited selectedType w2))"

text \<open>
  The dispatcher of \<^verbatim>\<open>src/generate/generate.ts\<close> reads the type from the positional
  arguments. Its two handlers are in modules of their own (\<^verbatim>\<open>./generate_page\<close>,
  \<^verbatim>\<open>./generate_tailwindcss\<close>); the
  result is the handler chosen and the arguments left for it.
\<close>

datatype routed =
    RoutePage "string list"
  | RouteTailwindcss "string list"

definition generate_argv :: "string list \<Rightarrow> error + routed" where
  "generate_argv argv =
     (let type' = (if 1 < length argv then Some (argv ! 1) else None);
          rest = drop 2 argv
      in if falsy type' then Inl (Error ''Not implemented'')
         else if type' = Some ''page'' then Inr (RoutePage rest)
         else if type' = Some ''tailwindcss'' then Inr (RouteTailwindcss rest)
         else Inl (Error (''Unknown type: '' @ the type')))"

text \<open>Whether an event of the trace is a call of \<^verbatim>\<open>sync\<close>, and whether it is a line of output.\<close>

fun is_Sync :: "event \<Rightarrow> bool" where
  "is_Sync (Sync c a b m) = True"
| "is_Sync _ = False"

fun is_Log :: "event \<Rightarrow> bool" where
  "is_Log (Log m) = True"
| "is_Log _ = False"

section \<open>A concrete setting\<close>

text \<open>
  An environment and worlds on which the theorems are instantiated: the user answers no
  to every question and picks \<^verbatim>\<open>entry\<close>, no operation of the file system fails, the
  configuration loaded is empty and \<^verbatim>\<open>sync\<close> changes nothing. Upper-casing is that of the
  letters a to z.
\<close>

definition upper_ascii :: "char \<Rightarrow> char" where
  "upper_ascii c =
     (if (97 :: nat) \<le> of_char c \<and> (of_char c :: nat) \<le> 122 then char_of (of_char c - (32 :: nat)) else c)"

definition demo_env :: env where
  "demo_env =
     \<lparr>processCwd = ''/p'', confirm = (\<lambda>_. False), answeredFirst = (\<lambda>_ _. True),
      select = (\<lambda>_ _. ''entry''), randomColor = ''#1a2b3c'', toUpperCase = map upper_ascii,
      writeFails = (\<lambda>_. False), mkdirFails = (\<lambda>_. False),
      errorMessage = (\<lambda>f p. ''EACCES: permission denied, '' @ f @ '' '' @ p),
      loadConfig = (\<lambda>_ _. []), sync = (\<lambda>_ _ _ _ f. f),
      CONFIG_FILE = ''.tnfrc'', FRAMEWORK_NAME = ''tnf''\<rparr>"

definition empty_world :: world where
  "empty_world = \<lparr>fs = \<lparr>files = Map.empty, dirs = {}\<rparr>, events = []\<rparr>"

definition demo_opts :: GenerateOptions where
  "demo_opts = \<lparr>cwd = ''/p'', type = None, name = Some ''about'', config = []\<rparr>"

text \<open>A world in which \<open>p\<close> is a file with the content \<open>c\<close>.\<close>

definition world_with :: "string \<Rightarrow> string \<Rightarrow> world" where
  "world_with p c = \<lparr>fs = \<lparr>files = [p \<mapsto> c], dirs = {}\<rparr>, events = []\<rparr>"


section \<open>Path segments\<close>

lemma split_on_nonempty: "split_on c p \<noteq> []"
  by (induction p) (auto split: list.splits)

lemma split_on_no_sep: "s \<in> set (split_on c p) \<Longrightarrow> c \<notin> set s"
  by (induction p arbitrary: s) (auto split: list.splits if_splits)

lemma split_on_append: "split_on c (a @ c # b) = split_on c a @ split_on c b"
  by (induction a) (auto split: list.splits simp: split_on_nonempty)

lemma split_on_free: "c \<notin> set s \<Longrightarrow> split_on c s = [s]"
  by (induction s) auto

lemma norm_segs_append:
  "norm_segs a acc (xs @ ys) = norm_segs a (rev (norm_segs a acc xs)) ys"
  by (induction a acc xs rule: norm_segs.induct) (auto split: list.splits)

lemma norm_segs_normal:
  "\<forall>s \<in> set xs. normal_seg s \<Longrightarrow> norm_segs a acc xs = rev acc @ xs"
  by (induction xs arbitrary: acc) (auto simp: normal_seg_def)

lemma split_on_join:
  "segs \<noteq> [] \<Longrightarrow> \<forall>s \<in> set segs. c \<notin> set s \<Longrightarrow> split_on c (join_with [c] segs) = segs"
proof (induction segs rule: induct_list012)
  case 1
  then show ?case by simp
next
  case (2 x)
  then show ?case by (simp add: split_on_free)
next
  case (3 x y ys)
  then show ?case
    using split_on_append [of c x "join_with [c] (y # ys)"] by (simp add: split_on_free)
qed

lemma norm_segs_ups:
  "\<forall>s \<in> set us. normal_seg s \<Longrightarrow>
   norm_segs a (rev us @ acc) (replicate (length us) ''..'' @ ts) = norm_segs a acc ts"
proof (induction us rule: rev_induct)
  case Nil
  then show ?case by simp
next
  case (snoc x xs)
  then show ?case by (auto simp: normal_seg_def)
qed

lemma strip_common_prefix:
  "strip_common xs ys = (xs', ys') \<Longrightarrow> \<exists>c. xs = c @ xs' \<and> ys = c @ ys'"
proof (induction xs ys rule: strip_common.induct)
  case (1 x xs y ys)
  then show ?case
    by (auto split: if_splits)
qed auto

lemma norm_segs_False_normal:
  "\<forall>s \<in> set acc. normal_seg s \<Longrightarrow> \<forall>s \<in> set xs. slash \<notin> set s \<Longrightarrow>
   \<forall>s \<in> set (norm_segs False acc xs). normal_seg s"
proof (induction xs arbitrary: acc)
  case Nil
  then show ?case by simp
next
  case step: (Cons s ss)
  from step.prems have ss: "\<forall>s \<in> set ss. slash \<notin> set s" and s: "slash \<notin> set s"
    by simp_all
  show ?case
  proof (cases "s = [] \<or> s = ''.''")
    case True
    with step.IH [OF step.prems(1) ss] show ?thesis by auto
  next
    case False
    show ?thesis
    proof (cases "s = ''..''")
      case True
      show ?thesis
      proof (cases acc)
        case Nil
        with True step.IH [of "[]", OF _ ss] show ?thesis by simp
      next
        case (Cons t acc')
        with step.prems(1) have "\<forall>s \<in> set acc'. normal_seg s"
          by simp
        from step.IH [OF this ss] step.IH [OF step.prems(1) ss] True Cons show ?thesis
          by simp
      qed
    next
      case n: False
      with False s step.prems(1) have "\<forall>s \<in> set (s # acc). normal_seg s"
        by (simp add: normal_seg_def)
      from step.IH [OF this ss] False n show ?thesis by simp
    qed
  qed
qed

lemma isAbsolute_nonempty: "isAbsolute p \<Longrightarrow> p \<noteq> []"
  by (auto simp: isAbsolute_def)

lemma norm_segs_skip_empty: "norm_segs a acc (xs @ [[]]) = norm_segs a acc xs"
  by (simp add: norm_segs_append)

lemma split_on_slash: "split_on slash (p @ CHR ''/'' # q) = split_on slash p @ split_on slash q"
  using split_on_append [of slash p q] by (simp add: slash_def)

lemma path_resolve_one:
  assumes "isAbsolute pcwd" and "a \<noteq> []"
  shows "path_resolve pcwd [a] = ''/'' @ join_with ''/'' (abs_segs pcwd a)"
  using assms isAbsolute_nonempty [OF assms(1)]
  by (simp add: path_resolve_def abs_segs_def split_on_slash norm_segs_append)

lemma path_resolve_two:
  assumes "isAbsolute pcwd" and "a \<noteq> []" and "b \<noteq> []" and "\<not> isAbsolute b"
  shows "path_resolve pcwd [a, b] =
         ''/'' @ join_with ''/'' (norm_segs False (rev (abs_segs pcwd a)) (split_on slash b))"
  using assms isAbsolute_nonempty [OF assms(1)]
  by (simp add: path_resolve_def abs_segs_def split_on_slash norm_segs_append)

lemma abs_segs_normal: "\<forall>s \<in> set (abs_segs pcwd a). normal_seg s"
  unfolding abs_segs_def
  by (rule norm_segs_False_normal) (auto dest: split_on_no_sep)

lemma segments_abs:
  assumes "\<forall>s \<in> set segs. normal_seg s"
  shows "segments (''/'' @ join_with ''/'' segs) = segs"
proof (cases "segs = []")
  case True
  then show ?thesis by (simp add: segments_def slash_def)
next
  case False
  from assms have nf: "\<forall>s \<in> set segs. slash \<notin> set s" and ne: "\<forall>s \<in> set segs. s \<noteq> []"
    by (auto simp: normal_seg_def)
  have "split_on slash (''/'' @ join_with ''/'' segs) = [] # split_on slash (join_with [slash] segs)"
    by (simp add: slash_def)
  also have "\<dots> = [] # segs"
    using split_on_join [OF False nf] by simp
  finally show ?thesis
    using ne by (simp add: segments_def filter_id_conv)
qed

lemma abs_segs_abs:
  assumes "\<forall>s \<in> set segs. normal_seg s"
  shows "abs_segs pcwd (''/'' @ join_with ''/'' segs) = segs"
proof (cases "segs = []")
  case True
  then show ?thesis by (simp add: abs_segs_def isAbsolute_def slash_def)
next
  case False
  from assms have nf: "\<forall>s \<in> set segs. slash \<notin> set s"
    by (auto simp: normal_seg_def)
  have "split_on slash (''/'' @ join_with ''/'' segs) = [] # split_on slash (join_with [slash] segs)"
    by (simp add: slash_def)
  also have "\<dots> = [] # segs"
    using split_on_join [OF False nf] by simp
  finally show ?thesis
    using assms by (simp add: abs_segs_def isAbsolute_def slash_def norm_segs_normal)
qed

lemma strip_common_same: "strip_common xs xs = ([], [])"
  by (induction xs) auto

lemma path_dirname_nonempty: "path_dirname p \<noteq> []"
proof (cases p)
  case Nil
  then show ?thesis by (simp add: path_dirname_def)
next
  case (Cons c q)
  define r where "r = dropWhile (\<lambda>x. x \<noteq> slash) (dropWhile (\<lambda>x. x = slash) (rev q))"
  have "path_dirname p = (case r of [] \<Rightarrow> if c = slash then ''/'' else ''.''
              | _ # front \<Rightarrow> if c = slash \<and> front = [] then ''//'' else c # rev front)"
    unfolding Cons r_def path_dirname_def Let_def list.case ..
  then show ?thesis
    by (cases r) (simp_all del: dropWhile_eq_Nil_conv)
qed

lemma join_with_Nil_iff:
  "\<forall>s \<in> set segs. s \<noteq> [] \<Longrightarrow> join_with sep segs = [] \<longleftrightarrow> segs = []"
  by (induction segs rule: induct_list012) auto

lemma path_relative_segs:
  assumes "isAbsolute pcwd" and "a \<noteq> []" and "\<forall>s \<in> set ts. normal_seg s"
    and "strip_common (abs_segs pcwd a) ts = (fs', ts')"
  shows "path_relative pcwd a (''/'' @ join_with ''/'' ts) =
         join_with ''/'' (replicate (length fs') ''..'' @ ts')"
proof -
  let ?T = "''/'' @ join_with ''/'' ts"
  have rT: "path_resolve pcwd [?T] = ?T"
    using path_resolve_one [OF assms(1), of ?T] abs_segs_abs [OF assms(3)] by simp
  have ra: "path_resolve pcwd [a] = ''/'' @ join_with ''/'' (abs_segs pcwd a)"
    by (rule path_resolve_one [OF assms(1,2)])
  have sa: "segments (path_resolve pcwd [a]) = abs_segs pcwd a"
    unfolding ra by (rule segments_abs [OF abs_segs_normal])
  have sT: "segments (path_resolve pcwd [?T]) = ts"
    unfolding rT by (rule segments_abs [OF assms(3)])
  show ?thesis
  proof (cases "a = ?T \<or> path_resolve pcwd [a] = path_resolve pcwd [?T]")
    case True
    then have "segments (path_resolve pcwd [a]) = segments (path_resolve pcwd [?T])"
      by auto
    with sa sT have "abs_segs pcwd a = ts"
      by simp
    with assms(4) have "fs' = [] \<and> ts' = []"
      by (simp add: strip_common_same)
    with True show ?thesis
      by (auto simp: path_relative_def Let_def)
  next
    case False
    then have "path_relative pcwd a ?T =
        (case strip_common (segments (path_resolve pcwd [a])) (segments (path_resolve pcwd [?T])) of
           (ups, downs) \<Rightarrow> join_with ''/'' (replicate (length ups) ''..'' @ downs))"
      by (simp add: path_relative_def Let_def)
    with sa sT assms(4) show ?thesis
      by simp
  qed
qed

lemma ups_free: "\<forall>s \<in> set ts'. normal_seg s \<Longrightarrow> s \<in> set (replicate n ''..'' @ ts') \<Longrightarrow> slash \<notin> set s \<and> s \<noteq> []"
proof -
  assume a: "\<forall>s \<in> set ts'. normal_seg s" and s: "s \<in> set (replicate n ''..'' @ ts')"
  from s have "s = ''..'' \<or> s \<in> set ts'"
    by auto
  then show ?thesis
  proof
    assume "s = ''..''"
    then show ?thesis by (simp add: slash_def)
  next
    assume "s \<in> set ts'"
    with a have "normal_seg s" by blast
    then show ?thesis by (simp add: normal_seg_def)
  qed
qed

lemma startsWith_dot_rel: "startsWith b ''.'' \<Longrightarrow> b \<noteq> [] \<and> \<not> isAbsolute b"
  by (cases b) (auto simp: startsWith_def isAbsolute_def slash_def)

lemma normalized_rel:
  "(if startsWith r ''.'' then r else ''./'' @ r) \<noteq> [] \<and>
   \<not> isAbsolute (if startsWith r ''.'' then r else ''./'' @ r)"
proof (cases "startsWith r ''.''")
  case True
  then show ?thesis using startsWith_dot_rel [of r] by simp
next
  case False
  then show ?thesis by (simp add: isAbsolute_def slash_def)
qed

lemma resolve_relative:
  assumes ab: "isAbsolute pcwd" and an: "a \<noteq> []" and nt: "\<forall>s \<in> set ts. normal_seg s"
  defines "r \<equiv> path_relative pcwd a (''/'' @ join_with ''/'' ts)"
  shows "path_resolve pcwd [a, if startsWith r ''.'' then r else ''./'' @ r] =
         ''/'' @ join_with ''/'' ts"
proof -
  obtain fs' ts' where sc: "strip_common (abs_segs pcwd a) ts = (fs', ts')"
    by (cases "strip_common (abs_segs pcwd a) ts")
  from strip_common_prefix [OF sc] obtain c where c: "abs_segs pcwd a = c @ fs'" "ts = c @ ts'"
    by blast
  define l where "l = replicate (length fs') ''..'' @ ts'"
  have r: "r = join_with ''/'' l"
    unfolding r_def l_def by (rule path_relative_segs [OF ab an nt sc])
  from abs_segs_normal [of pcwd a] c(1) have nf: "\<forall>s \<in> set fs'. normal_seg s"
    by simp
  from nt c(2) have nt': "\<forall>s \<in> set ts'. normal_seg s"
    by simp
  have lfree: "\<forall>s \<in> set l. slash \<notin> set s"
    unfolding l_def using ups_free [OF nt'] by blast
  have "norm_segs False (rev fs' @ rev c) (replicate (length fs') ''..'' @ ts') = norm_segs False (rev c) ts'"
    by (rule norm_segs_ups [OF nf])
  also have "\<dots> = rev (rev c) @ ts'"
    by (rule norm_segs_normal [OF nt'])
  finally have core: "norm_segs False (rev (abs_segs pcwd a)) l = ts"
    unfolding l_def c by simp
  define n where "n = (if startsWith r ''.'' then r else ''./'' @ r)"
  have nn: "n \<noteq> []" and na: "\<not> isAbsolute n"
    unfolding n_def using normalized_rel [of r] by blast+
  have "norm_segs False (rev (abs_segs pcwd a)) (split_on slash n) = ts"
  proof (cases "l = []")
    case True
    then have "r = []"
      using r by simp
    then have "n = ''./''"
      by (simp add: n_def startsWith_def)
    then have "split_on slash n = [''.'', []]"
      by (simp add: slash_def)
    with core True show ?thesis
      by simp
  next
    case False
    have sp: "split_on slash r = l"
      unfolding r using split_on_join [OF False lfree] by (simp add: slash_def)
    show ?thesis
    proof (cases "startsWith r ''.''")
      case True
      with sp core show ?thesis by (simp add: n_def)
    next
      case f: False
      have "split_on slash (''./'' @ r) = ''.'' # split_on slash r"
        using split_on_slash [of "''.''" r] by (simp add: slash_def)
      with f sp core show ?thesis by (simp add: n_def)
    qed
  qed
  with path_resolve_two [OF ab an nn na] show ?thesis
    unfolding n_def by simp
qed

lemma path_resolve_abs:
  assumes "isAbsolute pcwd" and "a \<noteq> []" and "startsWith b ''.''"
  shows "\<exists>ts. (\<forall>s \<in> set ts. normal_seg s) \<and> path_resolve pcwd [a, b] = ''/'' @ join_with ''/'' ts"
proof -
  from startsWith_dot_rel [OF assms(3)] have "b \<noteq> []" and "\<not> isAbsolute b"
    by blast+
  from path_resolve_two [OF assms(1,2) this]
  have "path_resolve pcwd [a, b] =
        ''/'' @ join_with ''/'' (norm_segs False (rev (abs_segs pcwd a)) (split_on slash b))" .
  moreover have "\<forall>s \<in> set (norm_segs False (rev (abs_segs pcwd a)) (split_on slash b)). normal_seg s"
    by (rule norm_segs_False_normal) (use abs_segs_normal in \<open>auto dest: split_on_no_sep\<close>)
  ultimately show ?thesis
    by blast
qed

lemma normalizedPath_resolves:
  assumes "isAbsolute pcwd" and "startsWith importPath ''.''"
  shows "path_resolve pcwd [path_dirname destPath, normalizedPath pcwd sourcePath destPath importPath]
       = path_resolve pcwd [path_dirname sourcePath, importPath]"
proof -
  define T where "T = path_resolve pcwd [path_dirname sourcePath, importPath]"
  from path_resolve_abs [OF assms(1) path_dirname_nonempty assms(2), of sourcePath]
  obtain ts where ts: "\<forall>s \<in> set ts. normal_seg s" and T: "T = ''/'' @ join_with ''/'' ts"
    unfolding T_def by blast
  have np: "normalizedPath pcwd sourcePath destPath importPath =
     (if startsWith (path_relative pcwd (path_dirname destPath) T) ''.''
      then path_relative pcwd (path_dirname destPath) T
      else ''./'' @ path_relative pcwd (path_dirname destPath) T)"
    unfolding normalizedPath_def Let_def T_def ..
  show ?thesis
    unfolding np T_def [symmetric] unfolding T
    by (rule resolve_relative [OF assms(1) path_dirname_nonempty ts])
qed

lemma split_on_append_free:
  "c \<notin> set e \<Longrightarrow> split_on c (j @ e) = butlast (split_on c j) @ [last (split_on c j) @ e]"
proof (induction j)
  case Nil
  then show ?case by (simp add: split_on_free)
next
  case (Cons x xs)
  obtain s ss where sp: "split_on c xs = s # ss"
    using split_on_nonempty [of c xs] by (cases "split_on c xs") auto
  obtain t ts where sp': "split_on c (xs @ e) = t # ts"
    using split_on_nonempty [of c "xs @ e"] by (cases "split_on c (xs @ e)") auto
  from Cons sp sp' show ?case
    by (cases ss) (auto split: if_splits)
qed

lemma join_with_snoc:
  "join_with sep (xs @ [z]) = (if xs = [] then z else join_with sep xs @ sep @ z)"
  by (induction xs rule: induct_list012) auto

lemma norm_segs_snoc_normal:
  "normal_seg z \<Longrightarrow> norm_segs a acc (xs @ [z]) = norm_segs a acc xs @ [z]"
  using norm_segs_append [of a acc xs "[z]"] norm_segs_normal [of "[z]" a] by simp

lemma path_normalize_suffix:
  assumes e: "slash \<notin> set e" and d: "\<exists>c \<in> set e. c \<noteq> CHR ''.''"
  shows "suffix e (path_normalize (j @ e))"
proof -
  from d have ne: "e \<noteq> []"
    by auto
  define l where "l = last (split_on slash j)"
  define z where "z = l @ e"
  have "l \<in> set (split_on slash j)"
    unfolding l_def using split_on_nonempty by simp
  then have "slash \<notin> set l"
    by (rule split_on_no_sep)
  moreover from d obtain c where c: "c \<in> set e" "c \<noteq> CHR ''.''"
    by blast
  then have "c \<in> set (l @ e)"
    by simp
  then have "l @ e \<noteq> ''.''" "l @ e \<noteq> ''..''"
    using c(2) by (metis empty_iff empty_set set_ConsD)+
  ultimately have nz: "normal_seg z"
    using e ne unfolding z_def normal_seg_def by auto
  have sp: "split_on slash (j @ e) = butlast (split_on slash j) @ [z]"
    unfolding z_def l_def by (rule split_on_append_free [OF e])
  define a where "a = norm_segs (\<not> isAbsolute (j @ e)) [] (butlast (split_on slash j))"
  have ns: "norm_segs (\<not> isAbsolute (j @ e)) [] (split_on slash (j @ e)) = a @ [z]"
    unfolding sp a_def by (rule norm_segs_snoc_normal [OF nz])
  define body where "body = join_with ''/'' (a @ [z])"
  have bz: "suffix z body"
    unfolding body_def join_with_snoc by (auto simp: suffix_def)
  then have bn: "body \<noteq> []"
    using nz by (auto simp: normal_seg_def suffix_def)
  from e ne have lst: "last (j @ e) \<noteq> slash"
    by (metis last_appendR last_in_set)
  have "path_normalize (j @ e) = (if isAbsolute (j @ e) then ''/'' else []) @ body"
    using ne bn lst unfolding path_normalize_def Let_def ns body_def [symmetric] by simp
  moreover have "suffix e z"
    unfolding z_def by (simp add: suffix_def)
  ultimately show ?thesis
    using bz by (auto simp: suffix_def)
qed

lemma path_join_suffix:
  assumes "slash \<notin> set e" and "\<exists>c \<in> set e. c \<noteq> CHR ''.''"
  shows "suffix e (path_join [a, b @ e])"
proof -
  from assms(2) have ne: "e \<noteq> []"
    by auto
  show ?thesis
  proof (cases "a = []")
    case True
    with ne path_normalize_suffix [OF assms, of b] show ?thesis
      by (simp add: path_join_def)
  next
    case False
    with ne path_normalize_suffix [OF assms, of "a @ ''/'' @ b"] show ?thesis
      by (simp add: path_join_def)
  qed
qed

lemma suffix_distinct:
  "suffix e1 p \<Longrightarrow> suffix e2 q \<Longrightarrow> length e1 = length e2 \<Longrightarrow> e1 \<noteq> e2 \<Longrightarrow> p \<noteq> q"
  by (auto simp: suffix_def)

text \<open>The directories above a path are no longer than the path.\<close>

lemma path_dirname_length:
  assumes "p \<noteq> []"
  shows "length (path_dirname p) \<le> length p"
proof (cases p)
  case Nil
  with assms show ?thesis by simp
next
  case (Cons c q)
  define r where "r = dropWhile (\<lambda>x. x \<noteq> slash) (dropWhile (\<lambda>x. x = slash) (rev q))"
  have d: "path_dirname p = (case r of [] \<Rightarrow> if c = slash then ''/'' else ''.''
              | _ # front \<Rightarrow> if c = slash \<and> front = [] then ''//'' else c # rev front)"
    unfolding Cons r_def path_dirname_def Let_def list.case ..
  have "length r \<le> length (dropWhile (\<lambda>x. x = slash) (rev q))"
    unfolding r_def by (rule length_dropWhile_le)
  also have "\<dots> \<le> length (rev q)"
    by (rule length_dropWhile_le)
  finally have lr: "length r \<le> length q"
    by simp
  show ?thesis
  proof (cases r)
    case Nil
    with d Cons show ?thesis by simp
  next
    case c2: (Cons y front)
    with lr have "Suc (length front) \<le> length q"
      by simp
    with d c2 Cons show ?thesis
      by (simp del: dropWhile_eq_Nil_conv)
  qed
qed

lemma funpow_dirname_length:
  assumes "p \<noteq> []"
  shows "(path_dirname ^^ k) p \<noteq> [] \<and> length ((path_dirname ^^ k) p) \<le> length p"
proof (induction k)
  case 0
  with assms show ?case by simp
next
  case (Suc k)
  from Suc path_dirname_length [of "(path_dirname ^^ k) p"]
  have "length (path_dirname ((path_dirname ^^ k) p)) \<le> length p"
    by simp
  then show ?case
    by (simp add: path_dirname_nonempty)
qed

lemma ancestors_length:
  assumes "q \<in> set (ancestors p)" and "p \<noteq> []"
  shows "length q \<le> length p"
proof -
  from assms(1) obtain k where "q = (path_dirname ^^ k) p"
    unfolding ancestors_def by auto
  with funpow_dirname_length [OF assms(2), of k] show ?thesis
    by simp
qed

lemma join_with_Cons:
  "join_with sep (s # rest) = s @ (if rest = [] then [] else sep @ join_with sep rest)"
  by (cases rest) simp_all

lemma join_with_append:
  "xs \<noteq> [] \<Longrightarrow> ys \<noteq> [] \<Longrightarrow> join_with sep (xs @ ys) = join_with sep xs @ sep @ join_with sep ys"
  by (induction xs rule: induct_list012) (auto simp: join_with_Cons)

lemma path_normalize_body:
  assumes "p \<noteq> []" and "last p \<noteq> slash"
    and "norm_segs (\<not> isAbsolute p) [] (split_on slash p) = segs"
    and "join_with ''/'' segs \<noteq> []"
  shows "path_normalize p = (if isAbsolute p then ''/'' else []) @ join_with ''/'' segs"
  using assms by (simp add: path_normalize_def Let_def)

text \<open>
  Joining a directory with a relative path made of ordinary segments puts the path after
  a text that depends on the directory only.
\<close>

lemma path_join_base:
  "\<exists>b. \<forall>ss. ss \<noteq> [] \<and> (\<forall>s \<in> set ss. normal_seg s) \<longrightarrow>
         path_join [c, join_with ''/'' ss] = b @ join_with ''/'' ss"
proof -
  define ab where "ab = isAbsolute c"
  define segs where "segs = norm_segs (\<not> ab) [] (split_on slash c)"
  define b where "b = (if c = [] then [] else
      (if ab then ''/'' else []) @ (if segs = [] then [] else join_with ''/'' segs @ ''/''))"
  have "path_join [c, join_with ''/'' ss] = b @ join_with ''/'' ss"
    if ne: "ss \<noteq> []" and nm: "\<forall>s \<in> set ss. normal_seg s" for ss
  proof -
    define e where "e = join_with ''/'' ss"
    from ne obtain s rest where sr: "ss = s # rest"
      by (cases ss) auto
    from ne obtain front z where fz: "ss = front @ [z]"
      by (cases ss rule: rev_cases) auto
    from nm sr have "normal_seg s"
      by simp
    then have s: "s \<noteq> []" and "slash \<notin> set s"
      by (simp_all add: normal_seg_def)
    with hd_in_set [of s] have sh: "hd s \<noteq> slash"
      by metis
    from nm fz have "normal_seg z"
      by simp
    then have z: "z \<noteq> []" and "slash \<notin> set z"
      by (simp_all add: normal_seg_def)
    with last_in_set [of z] have zl: "last z \<noteq> slash"
      by metis
    have en: "e \<noteq> []"
      unfolding e_def sr join_with_Cons using s by simp
    have eh: "\<not> isAbsolute e"
      unfolding e_def sr join_with_Cons using s sh by (cases s) (simp_all add: isAbsolute_def)
    have el: "last e \<noteq> slash"
      unfolding e_def fz join_with_snoc using z zl by simp
    have free: "\<forall>s \<in> set ss. slash \<notin> set s"
      using nm by (simp add: normal_seg_def)
    have sp: "split_on slash e = ss"
      unfolding e_def using split_on_join [OF ne free] by (simp add: slash_def)
    have jn: "join_with ''/'' ss \<noteq> []"
      using en unfolding e_def .
    show ?thesis
    proof (cases "c = []")
      case True
      have "norm_segs (\<not> isAbsolute e) [] (split_on slash e) = ss"
        unfolding sp using eh norm_segs_normal [OF nm, of True "[]"] by simp
      from path_normalize_body [OF en el this jn] eh have "path_normalize e = e"
        unfolding e_def by simp
      moreover have "path_join [c, e] = path_normalize e"
        using True en by (simp add: path_join_def)
      moreover have "b = []"
        using True by (simp add: b_def)
      ultimately show ?thesis
        unfolding e_def by simp
    next
      case False
      define j where "j = c @ ''/'' @ e"
      have ja: "isAbsolute j = ab"
        unfolding j_def ab_def using False by (cases c) (simp_all add: isAbsolute_def)
      have jl: "last j \<noteq> slash"
        unfolding j_def using en el by simp
      have "split_on slash j = split_on slash c @ ss"
        unfolding j_def using split_on_slash [of c e] sp by simp
      then have ns: "norm_segs (\<not> ab) [] (split_on slash j) = segs @ ss"
        unfolding segs_def using norm_segs_append [of "\<not> ab" "[]" "split_on slash c" ss]
          norm_segs_normal [OF nm, of "\<not> ab" "rev (norm_segs (\<not> ab) [] (split_on slash c))"]
        by simp
      have body: "join_with ''/'' (segs @ ss) =
          (if segs = [] then [] else join_with ''/'' segs @ ''/'') @ e"
        unfolding e_def using join_with_append [OF _ ne, of segs "''/''"] by simp
      with en have bn: "join_with ''/'' (segs @ ss) \<noteq> []"
        by simp
      have jn': "j \<noteq> []"
        unfolding j_def by simp
      have "norm_segs (\<not> isAbsolute j) [] (split_on slash j) = segs @ ss"
        unfolding ja by (rule ns)
      from path_normalize_body [OF jn' jl this bn]
      have "path_normalize j = (if ab then ''/'' else []) @ join_with ''/'' (segs @ ss)"
        unfolding ja .
      moreover have "path_join [c, e] = path_normalize j"
        using False en by (simp add: path_join_def j_def)
      moreover have "b = (if ab then ''/'' else []) @ (if segs = [] then [] else join_with ''/'' segs @ ''/'')"
        using False by (simp add: b_def)
      ultimately show ?thesis
        unfolding body e_def by simp
    qed
  qed
  then show ?thesis
    by blast
qed

section \<open>The scan of the rewriter\<close>

lemma prefix_from_take: "prefix ''from '' s \<Longrightarrow> s = ''from '' @ drop 5 s"
  by (auto simp: prefix_def)

lemma match_from_SomeD:
  assumes "match_from s = Some (m, p, rest)"
  shows "\<exists>q q'. is_quote q \<and> is_quote q' \<and> p \<noteq> [] \<and> quote_free p \<and>
           m = ''from '' @ q # p @ [q'] \<and> s = m @ rest"
proof -
  from assms obtain q t q' where pre: "prefix ''from '' s" and t: "drop 5 s = q # t"
    and q: "is_quote q" and p: "p = takeWhile (\<lambda>c. \<not> is_quote c) t" and pn: "p \<noteq> []"
    and d: "dropWhile (\<lambda>c. \<not> is_quote c) t = q' # rest"
    and m: "m = ''from '' @ q # p @ [q']"
    by (auto simp: match_from_def Let_def split: if_splits list.splits)
  have "t = takeWhile (\<lambda>c. \<not> is_quote c) t @ dropWhile (\<lambda>c. \<not> is_quote c) t"
    by simp
  with p d have t': "t = p @ q' # rest"
    by simp
  have "dropWhile (\<lambda>c. \<not> is_quote c) t \<noteq> []"
    using d by simp
  from hd_dropWhile [OF this] d have q': "is_quote q'"
    by simp
  have qf: "quote_free p"
    unfolding quote_free_def p by (auto dest: set_takeWhileD)
  from prefix_from_take [OF pre] t t' have "s = ''from '' @ q # p @ q' # rest"
    by simp
  with m q q' pn qf show ?thesis
    by auto
qed

lemma takeWhile_quote_free:
  "quote_free p \<Longrightarrow> is_quote q' \<Longrightarrow> takeWhile (\<lambda>c. \<not> is_quote c) (p @ q' # rest) = p"
  by (induction p) (auto simp: quote_free_def)

lemma dropWhile_quote_free:
  "quote_free p \<Longrightarrow> is_quote q' \<Longrightarrow> dropWhile (\<lambda>c. \<not> is_quote c) (p @ q' # rest) = q' # rest"
  by (induction p) (auto simp: quote_free_def)

lemma match_from_build:
  assumes "is_quote q" and "is_quote q'" and "p \<noteq> []" and "quote_free p"
  shows "match_from (''from '' @ q # p @ q' # rest) = Some (''from '' @ q # p @ [q'], p, rest)"
  using assms
  by (simp add: match_from_def takeWhile_quote_free dropWhile_quote_free)

lemma replace_from_Some:
  "match_from s = Some (m, p, rest) \<Longrightarrow> replace_from f s = f m p @ replace_from f rest"
  by (subst replace_from.simps) simp

lemma replace_from_None:
  "match_from (c # cs) = None \<Longrightarrow> replace_from f (c # cs) = c # replace_from f cs"
  by (subst replace_from.simps) simp

lemma match_from_Nil: "match_from [] = None"
  by (simp add: match_from_def)

lemma replace_from_Nil: "replace_from f [] = []"
  by (subst replace_from.simps) (simp add: match_from_Nil)

lemma scan_from_Some:
  "match_from s = Some (m, p, rest) \<Longrightarrow> scan_from s = Inr (m, p) # scan_from rest"
  by (subst scan_from.simps) simp

lemma scan_from_None:
  "match_from (c # cs) = None \<Longrightarrow> scan_from (c # cs) = Inl c # scan_from cs"
  by (subst scan_from.simps) simp

lemma scan_from_Nil: "scan_from [] = []"
  by (subst scan_from.simps) (simp add: match_from_Nil)

lemma replace_from_scan:
  "replace_from f s =
   concat (map (case_sum (\<lambda>c. [c]) (\<lambda>(m, p). f m p)) (scan_from s))"
proof (induction "length s" arbitrary: s rule: less_induct)
  case less
  show ?case
  proof (cases "match_from s")
    case None
    show ?thesis
    proof (cases s)
      case Nil
      then show ?thesis by (simp add: replace_from_Nil scan_from_Nil)
    next
      case (Cons c cs)
      with None less [of cs] show ?thesis
        by (simp add: replace_from_None scan_from_None)
    qed
  next
    case (Some a)
    then obtain m p rest where a: "match_from s = Some (m, p, rest)"
      by (cases a) auto
    from match_from_shorter [OF a] less [of rest] a show ?thesis
      by (simp add: replace_from_Some scan_from_Some)
  qed
qed

lemma scan_from_text:
  "concat (map (case_sum (\<lambda>c. [c]) fst) (scan_from s)) = s"
proof (induction "length s" arbitrary: s rule: less_induct)
  case less
  show ?case
  proof (cases "match_from s")
    case None
    show ?thesis
    proof (cases s)
      case Nil
      then show ?thesis by (simp add: scan_from_Nil)
    next
      case (Cons c cs)
      with None less [of cs] show ?thesis
        by (simp add: scan_from_None)
    qed
  next
    case (Some a)
    then obtain m p rest where a: "match_from s = Some (m, p, rest)"
      by (cases a) auto
    from match_from_SomeD [OF a] have "s = m @ rest"
      by blast
    with match_from_shorter [OF a] less [of rest] a show ?thesis
      by (simp add: scan_from_Some)
  qed
qed

lemma match_from_has_from:
  assumes "match_from s = Some (m, p, rest)"
  shows "has_from_quote s"
proof -
  from match_from_SomeD [OF assms] obtain q q' where "is_quote q" "s = ''from '' @ q # p @ q' # rest"
    by auto
  then show ?thesis by simp
qed

lemma replace_from_no_from:
  "\<not> has_from_quote s \<Longrightarrow> replace_from f s = s"
proof (induction s)
  case Nil
  then show ?case by (simp add: replace_from_Nil)
next
  case (Cons c cs)
  from Cons.prems have "match_from (c # cs) = None"
    using match_from_has_from [of "c # cs"] by (cases "match_from (c # cs)") auto
  moreover from Cons.prems have "\<not> has_from_quote cs"
    by simp
  ultimately show ?case
    using Cons.IH by (simp add: replace_from_None)
qed

lemma quote_free_no_from: "quote_free s \<Longrightarrow> \<not> has_from_quote s"
proof (induction s)
  case Nil
  then show ?case by simp
next
  case (Cons c cs)
  then have ih: "\<not> has_from_quote cs"
    by (simp add: quote_free_def)
  have "\<not> (prefix ''from '' (c # cs) \<and> (case drop 5 (c # cs) of [] \<Rightarrow> False | q # _ \<Rightarrow> is_quote q))"
  proof
    assume a: "prefix ''from '' (c # cs) \<and> (case drop 5 (c # cs) of [] \<Rightarrow> False | q # _ \<Rightarrow> is_quote q)"
    then obtain q t where "drop 5 (c # cs) = q # t" "is_quote q"
      by (auto split: list.splits)
    then have "q \<in> set (drop 5 (c # cs))"
      by simp
    then have "q \<in> set (c # cs)"
      by (rule in_set_dropD)
    with Cons.prems \<open>is_quote q\<close> show False
      by (auto simp: quote_free_def)
  qed
  with ih show ?case
    by simp
qed

lemma match_from_is_match:
  "match_from s = Some (m, p, rest) \<Longrightarrow> is_match m p \<and> s = m @ rest"
  using match_from_SomeD [of s m p rest] unfolding is_match_def by blast

lemma match_from_is_match_append:
  "is_match m p \<Longrightarrow> match_from (m @ rest) = Some (m, p, rest)"
  unfolding is_match_def using match_from_build by auto

lemma match_from_iff:
  "match_from s \<noteq> None \<longleftrightarrow>
   (\<exists>q t. s = ''from '' @ q # t \<and> is_quote q \<and>
      takeWhile (\<lambda>c. \<not> is_quote c) t \<noteq> [] \<and> dropWhile (\<lambda>c. \<not> is_quote c) t \<noteq> [])"
proof
  assume "match_from s \<noteq> None"
  then obtain m p rest where a: "match_from s = Some (m, p, rest)"
    by (cases "match_from s") auto
  from match_from_SomeD [OF a] obtain q q' where q: "is_quote q" "is_quote q'" "p \<noteq> []"
    "quote_free p" "s = ''from '' @ q # p @ q' # rest"
    by auto
  have "takeWhile (\<lambda>c. \<not> is_quote c) (p @ q' # rest) = p"
    "dropWhile (\<lambda>c. \<not> is_quote c) (p @ q' # rest) = q' # rest"
    using q by (simp_all add: takeWhile_quote_free dropWhile_quote_free)
  with q show "\<exists>q t. s = ''from '' @ q # t \<and> is_quote q \<and>
      takeWhile (\<lambda>c. \<not> is_quote c) t \<noteq> [] \<and> dropWhile (\<lambda>c. \<not> is_quote c) t \<noteq> []"
    by (intro exI [of _ q] exI [of _ "p @ q' # rest"]) simp
next
  assume "\<exists>q t. s = ''from '' @ q # t \<and> is_quote q \<and>
      takeWhile (\<lambda>c. \<not> is_quote c) t \<noteq> [] \<and> dropWhile (\<lambda>c. \<not> is_quote c) t \<noteq> []"
  then obtain q t where s: "s = ''from '' @ q # t" and q: "is_quote q"
    and tw: "takeWhile (\<lambda>c. \<not> is_quote c) t \<noteq> []"
    and dw: "dropWhile (\<lambda>c. \<not> is_quote c) t \<noteq> []"
    by blast
  from dw obtain q' rest where "dropWhile (\<lambda>c. \<not> is_quote c) t = q' # rest"
    by (cases "dropWhile (\<lambda>c. \<not> is_quote c) t") auto
  with s q tw show "match_from s \<noteq> None"
    by (simp add: match_from_def Let_def)
qed

lemma is_quote_not_letter:
  "is_quote q \<Longrightarrow> q \<noteq> CHR ''f'' \<and> q \<noteq> CHR ''r'' \<and> q \<noteq> CHR ''o'' \<and> q \<noteq> CHR ''m'' \<and> q \<noteq> CHR '' ''"
  by (auto simp: is_quote_def sq_def dq_def)

lemma is_match_hd: "is_match m p \<Longrightarrow> \<exists>t. m = CHR ''f'' # t"
  by (auto simp: is_match_def)

lemma replace_from_copy:
  assumes wf: "\<And>m p. is_match m p \<Longrightarrow> \<exists>p'. is_match (f m p) p'"
    and r: "replace_from f cs = x # R" and x: "x \<noteq> CHR ''f''"
  shows "\<exists>cs'. cs = x # cs' \<and> R = replace_from f cs'"
proof (cases "match_from cs")
  case None
  show ?thesis
  proof (cases cs)
    case Nil
    with r show ?thesis by (simp add: replace_from_Nil)
  next
    case (Cons c cs')
    with None r show ?thesis by (simp add: replace_from_None)
  qed
next
  case (Some a)
  then obtain m p rest where a: "match_from cs = Some (m, p, rest)"
    by (cases a) auto
  from match_from_is_match [OF a] have "is_match m p"
    by blast
  from wf [OF this] obtain p' where "is_match (f m p) p'"
    by blast
  from is_match_hd [OF this] obtain t where "f m p = CHR ''f'' # t"
    by blast
  with a r x show ?thesis
    by (simp add: replace_from_Some)
qed

lemma replace_from_quote_free: "quote_free s \<Longrightarrow> replace_from f s = s"
  by (rule replace_from_no_from [OF quote_free_no_from])

lemma replace_from_run:
  assumes wf: "\<And>m p. is_match m p \<Longrightarrow> \<exists>p'. is_match (f m p) p'"
    and r: "replace_from f s = p @ q' # rest" and p: "p \<noteq> []" "quote_free p" and q': "is_quote q'"
  shows "takeWhile (\<lambda>c. \<not> is_quote c) s \<noteq> [] \<and> dropWhile (\<lambda>c. \<not> is_quote c) s \<noteq> []"
proof
  show "dropWhile (\<lambda>c. \<not> is_quote c) s \<noteq> []"
  proof
    assume "dropWhile (\<lambda>c. \<not> is_quote c) s = []"
    then have "quote_free s"
      by (simp add: quote_free_def)
    from replace_from_quote_free [OF this, of f] r this q' show False
      by (auto simp: quote_free_def)
  qed
next
  from p obtain x p1 where px: "p = x # p1" and x: "\<not> is_quote x"
    by (cases p) (auto simp: quote_free_def)
  have "\<exists>y t. s = y # t \<and> \<not> is_quote y"
  proof (cases "x = CHR ''f''")
    case False
    from r px have "replace_from f s = x # (p1 @ q' # rest)"
      by simp
    from replace_from_copy [OF wf this False] x show ?thesis
      by auto
  next
    case True
    show ?thesis
    proof (cases "match_from s")
      case None
      show ?thesis
      proof (cases s)
        case Nil
        with r show ?thesis by (simp add: replace_from_Nil)
      next
        case (Cons c cs')
        with None r px x show ?thesis by (simp add: replace_from_None)
      qed
    next
      case (Some a)
      then obtain m p2 rest2 where a: "match_from s = Some (m, p2, rest2)"
        by (cases a) auto
      from match_from_is_match [OF a] is_match_hd [of m p2] obtain t where "s = (CHR ''f'' # t) @ rest2"
        by blast
      then show ?thesis
        by (auto simp: is_quote_def sq_def dq_def)
    qed
  qed
  then show "takeWhile (\<lambda>c. \<not> is_quote c) s \<noteq> []"
    by auto
qed

lemma match_from_gap:
  assumes wf: "\<And>m p. is_match m p \<Longrightarrow> \<exists>p'. is_match (f m p) p'"
    and n: "match_from (c # cs) = None"
  shows "match_from (c # replace_from f cs) = None"
proof (rule ccontr)
  assume "match_from (c # replace_from f cs) \<noteq> None"
  then obtain m p rest where a: "match_from (c # replace_from f cs) = Some (m, p, rest)"
    by (cases "match_from (c # replace_from f cs)") auto
  from match_from_SomeD [OF a] obtain q q' where q: "is_quote q" "is_quote q'" "p \<noteq> []"
    "quote_free p" and e: "c # replace_from f cs = ''from '' @ q # p @ q' # rest"
    by auto
  from e have c: "c = CHR ''f''" and r0: "replace_from f cs = CHR ''r'' # ''om '' @ q # p @ q' # rest"
    by simp_all
  from replace_from_copy [OF wf r0] obtain cs1 where cs1: "cs = CHR ''r'' # cs1"
    and r1: "replace_from f cs1 = CHR ''o'' # ''m '' @ q # p @ q' # rest"
    by auto
  from replace_from_copy [OF wf r1] obtain cs2 where cs2: "cs1 = CHR ''o'' # cs2"
    and r2: "replace_from f cs2 = CHR ''m'' # '' '' @ q # p @ q' # rest"
    by auto
  from replace_from_copy [OF wf r2] obtain cs3 where cs3: "cs2 = CHR ''m'' # cs3"
    and r3: "replace_from f cs3 = CHR '' '' # q # p @ q' # rest"
    by auto
  from replace_from_copy [OF wf r3] obtain cs4 where cs4: "cs3 = CHR '' '' # cs4"
    and r4: "replace_from f cs4 = q # p @ q' # rest"
    by auto
  from is_quote_not_letter [OF q(1)] have "q \<noteq> CHR ''f''"
    by blast
  from replace_from_copy [OF wf r4 this] obtain cs5 where cs5: "cs4 = q # cs5"
    and r5: "replace_from f cs5 = p @ q' # rest"
    by auto
  from replace_from_run [OF wf r5 q(3,4,2)]
  have "takeWhile (\<lambda>c. \<not> is_quote c) cs5 \<noteq> [] \<and> dropWhile (\<lambda>c. \<not> is_quote c) cs5 \<noteq> []" .
  moreover have "c # cs = ''from '' @ q # cs5"
    using c cs1 cs2 cs3 cs4 cs5 by simp
  ultimately have "match_from (c # cs) \<noteq> None"
    using q(1) unfolding match_from_iff by blast
  with n show False
    by simp
qed

lemma replace_from_fixed:
  assumes wf: "\<And>m p. is_match m p \<Longrightarrow> \<exists>p'. is_match (f m p) p' \<and> g (f m p) p' = f m p"
  shows "replace_from g (replace_from f s) = replace_from f s"
proof (induction "length s" arbitrary: s rule: less_induct)
  case less
  have wf': "\<And>m p. is_match m p \<Longrightarrow> \<exists>p'. is_match (f m p) p'"
    using wf by blast
  show ?case
  proof (cases "match_from s")
    case None
    show ?thesis
    proof (cases s)
      case Nil
      then show ?thesis by (simp add: replace_from_Nil)
    next
      case (Cons c cs)
      from None Cons have "match_from (c # cs) = None"
        by simp
      from match_from_gap [OF wf' this]
      have "match_from (c # replace_from f cs) = None" .
      with None Cons less [of cs] show ?thesis
        by (simp add: replace_from_None)
    qed
  next
    case (Some a)
    then obtain m p rest where a: "match_from s = Some (m, p, rest)"
      by (cases a) auto
    from match_from_is_match [OF a] have "is_match m p"
      by blast
    from wf [OF this] obtain p' where p': "is_match (f m p) p'" "g (f m p) p' = f m p"
      by blast
    from match_from_is_match_append [OF p'(1)]
    have "replace_from g (f m p @ replace_from f rest) = g (f m p) p' @ replace_from g (replace_from f rest)"
      by (simp add: replace_from_Some)
    with p'(2) less [of rest] match_from_shorter [OF a] a show ?thesis
      by (simp add: replace_from_Some)
  qed
qed

lemma quote_free_split: "quote_free p \<Longrightarrow> \<forall>s \<in> set (split_on c p). quote_free s"
  by (induction p) (auto simp: quote_free_def split: list.splits)

lemma quote_free_norm_segs:
  "\<forall>s \<in> set acc. quote_free s \<Longrightarrow> \<forall>s \<in> set xs. quote_free s \<Longrightarrow>
   \<forall>s \<in> set (norm_segs a acc xs). quote_free s"
proof (induction xs arbitrary: acc)
  case Nil
  then show ?case by simp
next
  case step: (Cons s ss)
  from step.prems have ss: "\<forall>s \<in> set ss. quote_free s" and s: "quote_free s"
    by simp_all
  have dd: "quote_free ''..''"
    by (simp add: quote_free_def is_quote_def sq_def dq_def)
  show ?case
  proof (cases "s = [] \<or> s = ''.''")
    case True
    with step.IH [OF step.prems(1) ss] show ?thesis by auto
  next
    case False
    show ?thesis
    proof (cases "s = ''..''")
      case True
      show ?thesis
      proof (cases acc)
        case Nil
        with True step.IH [of "[]", OF _ ss] step.IH [of "[''..'']", OF _ ss] dd show ?thesis
          by simp
      next
        case (Cons t acc')
        with step.prems(1) have "\<forall>s \<in> set acc'. quote_free s"
          and "\<forall>s \<in> set (''..'' # acc). quote_free s"
          using dd by simp_all
        from step.IH [OF this(1) ss] step.IH [OF this(2) ss] step.IH [OF step.prems(1) ss]
          True Cons show ?thesis
          by simp
      qed
    next
      case n: False
      from s step.prems(1) have "\<forall>s \<in> set (s # acc). quote_free s"
        by simp
      from step.IH [OF this ss] False n show ?thesis by simp
    qed
  qed
qed

lemma quote_free_join:
  "quote_free sep \<Longrightarrow> \<forall>s \<in> set xs. quote_free s \<Longrightarrow> quote_free (join_with sep xs)"
proof (induction xs rule: induct_list012)
  case 1
  then show ?case by (simp add: quote_free_def)
next
  case (2 x)
  then show ?case by simp
next
  case (3 x y zs)
  from 3(3,4) have "quote_free (join_with sep (y # zs))" and "quote_free x"
    using 3(2) by simp_all
  with 3(3) show ?case
    unfolding quote_free_def by (simp add: ball_Un)
qed

lemma quote_free_dirname:
  assumes "quote_free p"
  shows "quote_free (path_dirname p)"
proof (cases p)
  case Nil
  then show ?thesis
    by (simp add: path_dirname_def quote_free_def is_quote_def sq_def dq_def)
next
  case (Cons c q)
  define r where "r = dropWhile (\<lambda>x. x \<noteq> slash) (dropWhile (\<lambda>x. x = slash) (rev q))"
  have d: "path_dirname p = (case r of [] \<Rightarrow> if c = slash then ''/'' else ''.''
              | _ # front \<Rightarrow> if c = slash \<and> front = [] then ''//'' else c # rev front)"
    unfolding Cons r_def path_dirname_def Let_def list.case ..
  have "set r \<subseteq> set q"
    unfolding r_def using set_dropWhileD [of _ "\<lambda>x. x \<noteq> slash"] set_dropWhileD [of _ "\<lambda>x. x = slash" "rev q"]
    by fastforce
  with assms Cons have qr: "quote_free r" and qc: "\<not> is_quote c"
    by (auto simp: quote_free_def)
  show ?thesis
  proof (cases r)
    case Nil
    with d show ?thesis
      by (simp add: quote_free_def is_quote_def sq_def dq_def)
  next
    case c2: (Cons y front)
    with qr have "quote_free front"
      by (simp add: quote_free_def)
    with d c2 qc show ?thesis
      by (simp add: quote_free_def is_quote_def sq_def dq_def del: dropWhile_eq_Nil_conv)
  qed
qed

lemma quote_free_abs_segs:
  assumes "quote_free pcwd" and "quote_free a"
  shows "\<forall>s \<in> set (abs_segs pcwd a). quote_free s"
proof -
  have "quote_free (if isAbsolute a then a else pcwd @ ''/'' @ a)"
    using assms by (auto simp: quote_free_def is_quote_def sq_def dq_def)
  from quote_free_split [OF this] show ?thesis
    unfolding abs_segs_def by (intro quote_free_norm_segs) simp_all
qed

lemma strip_common_subset:
  "strip_common xs ys = (xs', ys') \<Longrightarrow> set ys' \<subseteq> set ys"
  using strip_common_prefix [of xs ys xs' ys'] by auto

lemma quote_free_normalizedPath:
  assumes ab: "isAbsolute pcwd" and sw: "startsWith importPath ''.''"
    and qp: "quote_free pcwd" and qs: "quote_free sourcePath" and qi: "quote_free importPath"
  shows "quote_free (normalizedPath pcwd sourcePath destPath importPath)"
proof -
  define a where "a = path_dirname sourcePath"
  define d where "d = path_dirname destPath"
  define ts where "ts = norm_segs False (rev (abs_segs pcwd a)) (split_on slash importPath)"
  have an: "a \<noteq> []" and dn: "d \<noteq> []"
    unfolding a_def d_def by (rule path_dirname_nonempty)+
  from startsWith_dot_rel [OF sw] have "importPath \<noteq> []" "\<not> isAbsolute importPath"
    by blast+
  from path_resolve_two [OF ab an this]
  have T: "path_resolve pcwd [a, importPath] = ''/'' @ join_with ''/'' ts"
    unfolding ts_def .
  have nt: "\<forall>s \<in> set ts. normal_seg s"
    unfolding ts_def
    by (rule norm_segs_False_normal) (use abs_segs_normal in \<open>auto dest: split_on_no_sep\<close>)
  have "quote_free a"
    unfolding a_def by (rule quote_free_dirname [OF qs])
  from quote_free_abs_segs [OF qp this] have "\<forall>s \<in> set (rev (abs_segs pcwd a)). quote_free s"
    by simp
  from quote_free_norm_segs [OF this quote_free_split [OF qi]]
  have qts: "\<forall>s \<in> set ts. quote_free s"
    unfolding ts_def .
  obtain fs' ts' where sc: "strip_common (abs_segs pcwd d) ts = (fs', ts')"
    by (cases "strip_common (abs_segs pcwd d) ts")
  from strip_common_subset [OF sc] qts have qts': "\<forall>s \<in> set ts'. quote_free s"
    by blast
  define r where "r = path_relative pcwd d (''/'' @ join_with ''/'' ts)"
  have r: "r = join_with ''/'' (replicate (length fs') ''..'' @ ts')"
    unfolding r_def by (rule path_relative_segs [OF ab dn nt sc])
  have dd: "quote_free ''..''"
    by (simp add: quote_free_def is_quote_def sq_def dq_def)
  have "\<forall>s \<in> set (replicate (length fs') ''..'' @ ts'). quote_free s"
  proof
    fix s
    assume "s \<in> set (replicate (length fs') ''..'' @ ts')"
    then have "s = ''..'' \<or> s \<in> set ts'"
      by auto
    with dd qts' show "quote_free s"
      by blast
  qed
  moreover have "quote_free ''/''"
    by (simp add: quote_free_def is_quote_def sq_def dq_def)
  ultimately have qr: "quote_free r"
    unfolding r by (intro quote_free_join)
  have np: "normalizedPath pcwd sourcePath destPath importPath =
     (if startsWith r ''.'' then r else ''./'' @ r)"
    unfolding normalizedPath_def Let_def r_def a_def [symmetric] d_def [symmetric] T ..
  have "quote_free (''./'' @ r)"
    using qr by (simp add: quote_free_def is_quote_def sq_def dq_def)
  with qr show ?thesis
    unfolding np by simp
qed

lemma normalizedPath_startsWith_dot:
  "startsWith (normalizedPath pcwd sourcePath destPath importPath) ''.''"
  by (simp add: normalizedPath_def Let_def startsWith_def)

lemma normalizedPath_fixed:
  assumes "isAbsolute pcwd" and "startsWith importPath ''.''"
  shows "normalizedPath pcwd destPath destPath (normalizedPath pcwd sourcePath destPath importPath)
       = normalizedPath pcwd sourcePath destPath importPath"
proof -
  define np where "np = normalizedPath pcwd sourcePath destPath importPath"
  have "normalizedPath pcwd destPath destPath np =
     (let relativePath = path_relative pcwd (path_dirname destPath)
              (path_resolve pcwd [path_dirname destPath, np])
      in if startsWith relativePath ''.'' then relativePath else ''./'' @ relativePath)"
    unfolding normalizedPath_def ..
  also have "path_resolve pcwd [path_dirname destPath, np] =
             path_resolve pcwd [path_dirname sourcePath, importPath]"
    unfolding np_def by (rule normalizedPath_resolves [OF assms])
  finally show ?thesis
    unfolding np_def normalizedPath_def .
qed

section \<open>The rewriter: resolution, from-clauses, rewriting again\<close>

text \<open>
  C1. The rewriter tests a specifier for a leading dot, and puts \<^verbatim>\<open>./\<close> in front of the new
  relative path only when that path does not start with a dot. On the paths of the entry
  generator, from the template in \<^verbatim>\<open>src/.tnf\<close> to \<^verbatim>\<open>src\<close>, the relative path of a file of
  the framework directory starts with the dot of \<^verbatim>\<open>.tnf\<close>: the specifier \<^verbatim>\<open>./router\<close> of the
  template comes out as \<^verbatim>\<open>.tnf/router\<close>, which starts with neither \<^verbatim>\<open>./\<close> nor \<^verbatim>\<open>../\<close> and
  so is no relative specifier any more. And a specifier that is not relative but starts
  with a dot, such as the package \<^verbatim>\<open>.prisma/client\<close>, is not left as it was: it is rewritten
  like a relative one. The new specifier is always put between single quotes, as it is:
  where the source path holds a single quote, the specifier written ends at that quote.
\<close>

theorem processImportPaths_dot_directory:
  "path_join [path_join [''/p'', ''src/.'' @ ''tnf''], ''client.tsx''] = ''/p/src/.tnf/client.tsx'' \<and>
   path_join [''/p'', ''src/client.tsx''] = ''/p/src/client.tsx'' \<and>
   processImportPaths ''/p'' (''import r from './router'' @ [sq])
     ''/p/src/.tnf/client.tsx'' ''/p/src/client.tsx''
   = ''import r from '.tnf/router'' @ [sq] \<and>
   \<not> startsWith ''.tnf/router'' ''./'' \<and> \<not> startsWith ''.tnf/router'' ''../'' \<and>
   processImportPaths ''/p'' (''import { db } from '.prisma/client'' @ [sq])
     ''/p/a/f.ts'' ''/p/f.ts''
   = ''import { db } from './a/.prisma/client'' @ [sq] \<and>
   processImportPaths ''/p'' (''import x from '' @ [dq] @ ''./x'' @ [dq])
     ''/p/it's/f.ts'' ''/p/f.ts''
   = ''import x from './it's/x'' @ [sq]"
  by code_simp

lemma scan_from_is_match:
  "Inr (m, p) \<in> set (scan_from s) \<Longrightarrow> is_match m p"
proof (induction "length s" arbitrary: s rule: less_induct)
  case less
  show ?case
  proof (cases "match_from s")
    case None
    show ?thesis
    proof (cases s)
      case Nil
      with less.prems show ?thesis by (simp add: scan_from_Nil)
    next
      case (Cons c cs)
      with None less.prems less.hyps [of cs] show ?thesis
        by (simp add: scan_from_None)
    qed
  next
    case (Some a)
    then obtain m' p' rest where a: "match_from s = Some (m', p', rest)"
      by (cases a) auto
    from match_from_is_match [OF a] match_from_shorter [OF a] less.hyps [of rest] less.prems a
    show ?thesis
      by (auto simp: scan_from_Some)
  qed
qed

text \<open>
  C10. Whatever the content, what the rewriter replaces is a from-clause: each match of
  the scan is \<^verbatim>\<open>from \<close>, a quote, the specifier and a quote, and everything else is copied.
  So a content in which \<^verbatim>\<open>from \<close> is nowhere followed by a quote comes back unchanged,
  whatever the two paths: the specifier of a side-effect import or of a dynamic
  \<^verbatim>\<open>import()\<close> is not in a from-clause and is not rewritten, even when it is relative.
\<close>

theorem only_from_clauses_rewritten:
  "processImportPaths pcwd content sourcePath destPath =
     concat (map (case_sum (\<lambda>c. [c]) (\<lambda>(m, p). rewrite_import pcwd sourcePath destPath m p))
               (scan_from content)) \<and>
   concat (map (case_sum (\<lambda>c. [c]) fst) (scan_from content)) = content \<and>
   (\<forall>m p. Inr (m, p) \<in> set (scan_from content) \<longrightarrow>
      (\<exists>q q'. is_quote q \<and> is_quote q' \<and> m = ''from '' @ q # p @ [q'])) \<and>
   (\<not> has_from_quote content \<longrightarrow> processImportPaths pcwd content sourcePath destPath = content)"
proof (intro conjI allI impI)
  show "processImportPaths pcwd content sourcePath destPath =
     concat (map (case_sum (\<lambda>c. [c]) (\<lambda>(m, p). rewrite_import pcwd sourcePath destPath m p))
               (scan_from content))"
    unfolding processImportPaths_def by (rule replace_from_scan)
next
  show "concat (map (case_sum (\<lambda>c. [c]) fst) (scan_from content)) = content"
    by (rule scan_from_text)
next
  fix m p
  assume "Inr (m, p) \<in> set (scan_from content)"
  from scan_from_is_match [OF this]
  show "\<exists>q q'. is_quote q \<and> is_quote q' \<and> m = ''from '' @ q # p @ [q']"
    unfolding is_match_def by blast
next
  assume "\<not> has_from_quote content"
  then show "processImportPaths pcwd content sourcePath destPath = content"
    unfolding processImportPaths_def by (rule replace_from_no_from)
qed

theorem only_from_clauses_rewritten_witness:
  "\<not> has_from_quote ''import './styles.css'; const page = import('./x');'' \<and>
   processImportPaths ''/'' ''import './styles.css'; const page = import('./x');''
     ''/p/src/.tnf/client.tsx'' ''/p/lib/client.tsx''
   = ''import './styles.css'; const page = import('./x');'' \<and>
   processImportPaths ''/'' (''import './styles.css'; import r from './router'' @ [sq])
     ''/p/src/.tnf/client.tsx'' ''/p/lib/client.tsx''
   = ''import './styles.css'; import r from '../src/.tnf/router'' @ [sq]"
proof -
  have h: "\<not> has_from_quote ''import './styles.css'; const page = import('./x');''"
    by code_simp
  have m: "processImportPaths ''/'' (''import './styles.css'; import r from './router'' @ [sq])
     ''/p/src/.tnf/client.tsx'' ''/p/lib/client.tsx''
   = ''import './styles.css'; import r from '../src/.tnf/router'' @ [sq]"
    by code_simp
  from only_from_clauses_rewritten
         [of "''/''" "''import './styles.css'; const page = import('./x');''"
             "''/p/src/.tnf/client.tsx''" "''/p/lib/client.tsx''"] h
  have "processImportPaths ''/'' ''import './styles.css'; const page = import('./x');''
     ''/p/src/.tnf/client.tsx'' ''/p/lib/client.tsx''
   = ''import './styles.css'; const page = import('./x');''"
    by blast
  with h m show ?thesis
    by blast
qed

text \<open>
  C6. Rewriting twice with the same source and destination is not the identity on what the
  first pass produced: the second pass resolves the new specifier from the directory of
  the source again. And when the source path holds a quote, a second pass from the
  destination cuts the specifier at that quote.
\<close>

theorem rewrite_again_counterexample:
  "processImportPaths ''/''
     (processImportPaths ''/'' (''import x from './x'' @ [sq]) ''/p/a/b/f.ts'' ''/p/f.ts'')
     ''/p/a/b/f.ts'' ''/p/f.ts''
   \<noteq> processImportPaths ''/'' (''import x from './x'' @ [sq]) ''/p/a/b/f.ts'' ''/p/f.ts'' \<and>
   processImportPaths ''/''
     (processImportPaths ''/'' (''import x from './x'' @ [sq]) ''/p/a/'b/f.ts'' ''/p/f.ts'')
     ''/p/f.ts'' ''/p/f.ts''
   \<noteq> processImportPaths ''/'' (''import x from './x'' @ [sq]) ''/p/a/'b/f.ts'' ''/p/f.ts''"
  by code_simp

text \<open>
  C6, amended. The content produced for a destination is a fixed point of the rewriter
  once it is read as a file at that destination (source path and destination path both
  the destination), provided the working directory and the source path hold no quote.
\<close>

theorem rewrite_again_at_destination:
  assumes "isAbsolute pcwd" and "quote_free pcwd" and "quote_free sourcePath"
  shows "processImportPaths pcwd (processImportPaths pcwd content sourcePath destPath) destPath destPath
       = processImportPaths pcwd content sourcePath destPath"
  unfolding processImportPaths_def
proof (rule replace_from_fixed)
  fix m p
  assume mp: "is_match m p"
  then have qp: "quote_free p"
    by (auto simp: is_match_def)
  let ?f = "rewrite_import pcwd sourcePath destPath"
  let ?g = "rewrite_import pcwd destPath destPath"
  show "\<exists>p'. is_match (?f m p) p' \<and> ?g (?f m p) p' = ?f m p"
  proof (cases "startsWith p ''.''")
    case False
    with mp show ?thesis
      by (intro exI [of _ p]) (simp add: rewrite_import_def)
  next
    case True
    define np where "np = normalizedPath pcwd sourcePath destPath p"
    have f: "?f m p = ''from '' @ sq # np @ [sq]"
      using True by (simp add: rewrite_import_def np_def)
    have sw: "startsWith np ''.''"
      unfolding np_def by (rule normalizedPath_startsWith_dot)
    then have nn: "np \<noteq> []"
      using startsWith_dot_rel by blast
    have qn: "quote_free np"
      unfolding np_def by (rule quote_free_normalizedPath [OF assms(1) True assms(2,3) qp])
    have "is_match (?f m p) np"
      unfolding f is_match_def using nn qn by (auto simp: is_quote_def)
    moreover have "?g (?f m p) np = ?f m p"
      using sw True normalizedPath_fixed [OF assms(1) True, of destPath sourcePath]
      by (simp add: rewrite_import_def np_def)
    ultimately show ?thesis
      by blast
  qed
qed

theorem rewrite_again_at_destination_witness:
  "isAbsolute ''/'' \<and> quote_free ''/'' \<and> quote_free ''/p/a/b/f.ts'' \<and>
   processImportPaths ''/'' (''import x from './x'' @ [sq]) ''/p/a/b/f.ts'' ''/p/f.ts''
     = ''import x from './a/b/x'' @ [sq] \<and>
   processImportPaths ''/'' (''import x from './a/b/x'' @ [sq]) ''/p/f.ts'' ''/p/f.ts''
     = ''import x from './a/b/x'' @ [sq]"
proof -
  have a: "isAbsolute ''/''" and q1: "quote_free ''/''" and q2: "quote_free ''/p/a/b/f.ts''"
    by code_simp+
  have e: "processImportPaths ''/'' (''import x from './x'' @ [sq]) ''/p/a/b/f.ts'' ''/p/f.ts''
     = ''import x from './a/b/x'' @ [sq]"
    by code_simp
  from rewrite_again_at_destination [OF a q1 q2, of "''import x from './x'' @ [sq]" "''/p/f.ts''"] e
  have "processImportPaths ''/'' (''import x from './a/b/x'' @ [sq]) ''/p/f.ts'' ''/p/f.ts''
     = ''import x from './a/b/x'' @ [sq]"
    by simp
  with a q1 q2 e show ?thesis
    by blast
qed

section \<open>The file writers\<close>

lemma writeFile_ok:
  "\<not> writeFails E p \<Longrightarrow>
   writeFile E p c w =
     (Inr (), \<lparr>fs = (fs w)\<lparr>files := (files (fs w))(p \<mapsto> c)\<rparr>, events = events w @ [WriteFile p c]\<rparr>)"
  by (simp add: writeFile_def emit_def Let_def)

lemma writeFile_fails:
  "writeFails E p \<Longrightarrow>
   writeFile E p c w =
     (Inl (IOError (errorMessage E ''writeFile'' p)), \<lparr>fs = fs w, events = events w @ [WriteFile p c]\<rparr>)"
  by (simp add: writeFile_def emit_def Let_def)

lemma existsSync_fs: "fs w = fs w' \<Longrightarrow> existsSync w p = existsSync w' p"
  by (simp add: existsSync_def)

lemma existsSync_emit [simp]: "existsSync (emit e w) p = existsSync w p"
  by (simp add: existsSync_def emit_def)

lemma fs_emit [simp]: "fs (emit e w) = fs w"
  by (simp add: emit_def)

lemma events_emit [simp]: "events (emit e w) = events w @ [e]"
  by (simp add: emit_def)

text \<open>The three outcomes of the confirmation-gated writer.\<close>

lemma writeFileWithConfirmation_skip:
  assumes "existsSync w p" and "\<not> confirm E msg"
  shows "writeFileWithConfirmation E p c msg w =
         (\<lparr>path = p, success = False, message = ''Skipped writing to '' @ p\<rparr>,
          \<lparr>fs = fs w, events = events w @ [Confirm msg]\<rparr>)"
  using assms by (simp add: writeFileWithConfirmation_def Let_def emit_def)

lemma writeFileWithConfirmation_write:
  assumes "\<not> existsSync w p \<or> confirm E msg" and "\<not> writeFails E p"
  shows "writeFileWithConfirmation E p c msg w =
         (\<lparr>path = p, success = True, message = ''Generated file at: '' @ p\<rparr>,
          \<lparr>fs = (fs w)\<lparr>files := (files (fs w))(p \<mapsto> c)\<rparr>,
           events = events w @ (if existsSync w p then [Confirm msg] else []) @ [WriteFile p c]\<rparr>)"
  using assms by (auto simp: writeFileWithConfirmation_def Let_def emit_def writeFile_ok)

lemma writeFileWithConfirmation_fail:
  assumes "\<not> existsSync w p \<or> confirm E msg" and "writeFails E p"
  shows "writeFileWithConfirmation E p c msg w =
         (\<lparr>path = p, success = False,
           message = ''Failed to write file: '' @ error_text (IOError (errorMessage E ''writeFile'' p))\<rparr>,
          \<lparr>fs = fs w,
           events = events w @ (if existsSync w p then [Confirm msg] else []) @ [WriteFile p c]\<rparr>)"
  using assms by (auto simp: writeFileWithConfirmation_def Let_def emit_def writeFile_fails)

lemma updateConfigFile_ok:
  assumes "\<not> writeFails E (path_join [d, CONFIG_FILE E @ ''.ts''])"
  shows "updateConfigFile E d cfg w =
         (\<lparr>path = path_join [d, CONFIG_FILE E @ ''.ts''], success = True,
           message = ''Updated config file at: '' @ CONFIG_FILE E @ ''.ts''\<rparr>,
          \<lparr>fs = (fs w)\<lparr>files := (files (fs w))(path_join [d, CONFIG_FILE E @ ''.ts''] \<mapsto>
                  ''export default '' @ unquote_keys (stringify 0 (JObj cfg)))\<rparr>,
           events = events w @ [WriteFile (path_join [d, CONFIG_FILE E @ ''.ts''])
                  (''export default '' @ unquote_keys (stringify 0 (JObj cfg)))]\<rparr>)"
  using assms by (simp add: updateConfigFile_def Let_def writeFile_ok)

lemma updateConfigFile_fails:
  assumes "writeFails E (path_join [d, CONFIG_FILE E @ ''.ts''])"
  shows "updateConfigFile E d cfg w =
         (\<lparr>path = path_join [d, CONFIG_FILE E @ ''.ts''], success = False,
           message = ''Failed to update config file: '' @
                     error_text (IOError (errorMessage E ''writeFile'' (path_join [d, CONFIG_FILE E @ ''.ts''])))\<rparr>,
          \<lparr>fs = fs w,
           events = events w @ [WriteFile (path_join [d, CONFIG_FILE E @ ''.ts''])
                  (''export default '' @ unquote_keys (stringify 0 (JObj cfg)))]\<rparr>)"
  using assms by (simp add: updateConfigFile_def Let_def writeFile_fails)



lemma writeFileWithConfirmation_events:
  "events (snd (writeFileWithConfirmation E p c msg w)) =
     events w @ (if existsSync w p then [Confirm msg] else [])
       @ (if existsSync w p \<and> \<not> confirm E msg then [] else [WriteFile p c])"
proof (cases "existsSync w p \<and> \<not> confirm E msg")
  case True
  then show ?thesis by (simp add: writeFileWithConfirmation_skip)
next
  case False
  then have a: "\<not> existsSync w p \<or> confirm E msg"
    by blast
  show ?thesis
  proof (cases "writeFails E p")
    case True
    from writeFileWithConfirmation_fail [OF a True] False show ?thesis by simp
  next
    case f: False
    from writeFileWithConfirmation_write [OF a f] False show ?thesis by simp
  qed
qed


lemma updateConfigFile_files:
  "files (fs (snd (updateConfigFile E d cfg w))) =
     (if writeFails E (path_join [d, CONFIG_FILE E @ ''.ts'']) then files (fs w)
      else (files (fs w))(path_join [d, CONFIG_FILE E @ ''.ts''] \<mapsto>
             ''export default '' @ unquote_keys (stringify 0 (JObj cfg))))"
  by (simp add: updateConfigFile_ok updateConfigFile_fails)

lemma updateConfigFile_dirs: "dirs (fs (snd (updateConfigFile E d cfg w))) = dirs (fs w)"
  by (cases "writeFails E (path_join [d, CONFIG_FILE E @ ''.ts''])")
    (simp_all add: updateConfigFile_ok updateConfigFile_fails)

lemma updateConfigFile_events:
  "events (snd (updateConfigFile E d cfg w)) =
     events w @ [WriteFile (path_join [d, CONFIG_FILE E @ ''.ts''])
                   (''export default '' @ unquote_keys (stringify 0 (JObj cfg)))]"
  by (cases "writeFails E (path_join [d, CONFIG_FILE E @ ''.ts''])")
    (simp_all add: updateConfigFile_ok updateConfigFile_fails)

lemma updateConfigFile_success:
  "success (fst (updateConfigFile E d cfg w)) = (\<not> writeFails E (path_join [d, CONFIG_FILE E @ ''.ts'']))"
  by (cases "writeFails E (path_join [d, CONFIG_FILE E @ ''.ts''])")
    (simp_all add: updateConfigFile_ok updateConfigFile_fails)

lemma fold_console_log_fs: "fs (fold (\<lambda>r. console_log (message r)) rs w) = fs w"
  by (induction rs arbitrary: w) (simp_all add: console_log_def)

lemma fold_console_log_events:
  "events (fold (\<lambda>r. console_log (message r)) rs w) = events w @ map (\<lambda>r. Log (message r)) rs"
  by (induction rs arbitrary: w) (simp_all add: console_log_def)

lemma log_successes_fs [simp]: "fs (log_successes rs w) = fs w"
  by (simp add: log_successes_def fold_console_log_fs)

lemma log_successes_events:
  "events (log_successes rs w) = events w @ map (\<lambda>r. Log (message r)) (filter success rs)"
  by (simp add: log_successes_def fold_console_log_events)

lemma map_of_set_prop [simp]: "map_of (set_prop k v kvs) k = Some v"
  by (induction kvs) auto

lemma map_of_set_prop_other: "k' \<noteq> k \<Longrightarrow> map_of (set_prop k v kvs) k' = map_of kvs k'"
  by (induction kvs) auto

section \<open>The writer with confirmation and the page generator\<close>

text \<open>
  C3. The confirmation-gated writer returns a result and never an exception. If something
  exists at the path it asks the caller's question first. On the answer no it returns the
  skip result and the file system is as it was. On the answer yes, or when nothing
  existed, it writes: if the write succeeds the file holds the content, whatever it held,
  and the result is a success; if the write raises, the error is caught and reported in a
  failure result, the file system being as it was.
\<close>

theorem writeFileWithConfirmation_outcomes:
  "(existsSync w filePath \<and> \<not> confirm E confirmMessage \<longrightarrow>
      writeFileWithConfirmation E filePath content confirmMessage w =
        (\<lparr>path = filePath, success = False, message = ''Skipped writing to '' @ filePath\<rparr>,
         \<lparr>fs = fs w, events = events w @ [Confirm confirmMessage]\<rparr>)) \<and>
   ((\<not> existsSync w filePath \<or> confirm E confirmMessage) \<and> \<not> writeFails E filePath \<longrightarrow>
      writeFileWithConfirmation E filePath content confirmMessage w =
        (\<lparr>path = filePath, success = True, message = ''Generated file at: '' @ filePath\<rparr>,
         \<lparr>fs = (fs w)\<lparr>files := (files (fs w))(filePath \<mapsto> content)\<rparr>,
          events = events w @ (if existsSync w filePath then [Confirm confirmMessage] else [])
                     @ [WriteFile filePath content]\<rparr>)) \<and>
   ((\<not> existsSync w filePath \<or> confirm E confirmMessage) \<and> writeFails E filePath \<longrightarrow>
      writeFileWithConfirmation E filePath content confirmMessage w =
        (\<lparr>path = filePath, success = False,
          message = ''Failed to write file: '' @ error_text (IOError (errorMessage E ''writeFile'' filePath))\<rparr>,
         \<lparr>fs = fs w,
          events = events w @ (if existsSync w filePath then [Confirm confirmMessage] else [])
                     @ [WriteFile filePath content]\<rparr>))"
  using writeFileWithConfirmation_skip [of w filePath E confirmMessage content]
    writeFileWithConfirmation_write [of w filePath E confirmMessage content]
    writeFileWithConfirmation_fail [of w filePath E confirmMessage content]
  by blast

theorem writeFileWithConfirmation_outcomes_witness:
  "existsSync (world_with ''/p/a.txt'' ''old'') ''/p/a.txt'' \<and> \<not> confirm demo_env ''Overwrite?'' \<and>
   success (fst (writeFileWithConfirmation demo_env ''/p/a.txt'' ''new'' ''Overwrite?''
                   (world_with ''/p/a.txt'' ''old''))) = False \<and>
   files (fs (snd (writeFileWithConfirmation demo_env ''/p/a.txt'' ''new'' ''Overwrite?''
                     (world_with ''/p/a.txt'' ''old'')))) ''/p/a.txt'' = Some ''old'' \<and>
   \<not> existsSync empty_world ''/p/a.txt'' \<and> \<not> writeFails demo_env ''/p/a.txt'' \<and>
   success (fst (writeFileWithConfirmation demo_env ''/p/a.txt'' ''new'' ''Overwrite?'' empty_world)) \<and>
   files (fs (snd (writeFileWithConfirmation demo_env ''/p/a.txt'' ''new'' ''Overwrite?'' empty_world)))
     ''/p/a.txt'' = Some ''new''"
proof -
  have h1: "existsSync (world_with ''/p/a.txt'' ''old'') ''/p/a.txt''"
    by (simp add: existsSync_def world_with_def)
  have h2: "\<not> confirm demo_env ''Overwrite?''"
    by (simp add: demo_env_def)
  have h3: "\<not> existsSync empty_world ''/p/a.txt''"
    by (simp add: existsSync_def empty_world_def)
  have h4: "\<not> writeFails demo_env ''/p/a.txt''"
    by (simp add: demo_env_def)
  from writeFileWithConfirmation_outcomes
         [of "world_with ''/p/a.txt'' ''old''" "''/p/a.txt''" demo_env "''Overwrite?''" "''new''"] h1 h2
  have a: "writeFileWithConfirmation demo_env ''/p/a.txt'' ''new'' ''Overwrite?'' (world_with ''/p/a.txt'' ''old'') =
        (\<lparr>path = ''/p/a.txt'', success = False, message = ''Skipped writing to '' @ ''/p/a.txt''\<rparr>,
         \<lparr>fs = fs (world_with ''/p/a.txt'' ''old''),
          events = events (world_with ''/p/a.txt'' ''old'') @ [Confirm ''Overwrite?'']\<rparr>)"
    by blast
  from writeFileWithConfirmation_outcomes
         [of empty_world "''/p/a.txt''" demo_env "''Overwrite?''" "''new''"] h3 h4
  have b: "writeFileWithConfirmation demo_env ''/p/a.txt'' ''new'' ''Overwrite?'' empty_world =
        (\<lparr>path = ''/p/a.txt'', success = True, message = ''Generated file at: '' @ ''/p/a.txt''\<rparr>,
         \<lparr>fs = (fs empty_world)\<lparr>files := (files (fs empty_world))(''/p/a.txt'' \<mapsto> ''new'')\<rparr>,
          events = events empty_world @ (if existsSync empty_world ''/p/a.txt'' then [Confirm ''Overwrite?''] else [])
                     @ [WriteFile ''/p/a.txt'' ''new'']\<rparr>)"
    by blast
  from h1 h2 h3 h4 show ?thesis
    unfolding a b by (simp add: world_with_def)
qed

text \<open>
  C2. For a name that is not empty, the two paths differ. If something exists at either
  of them the generator raises the assertion error and the world is as it was: nothing
  is written. If nothing exists at either and no operation of the file system fails, the
  generator returns normally, the two files are new and hold the component and the style,
  no other file has changed, and the pages directory exists.
\<close>

theorem generatePage_two_files:
  assumes "name opts = Some n" and "n \<noteq> []"
  shows
    "let pagesDir = path_join [cwd opts, ''src/pages''];
         pagePath = path_join [pagesDir, n @ ''.tsx''];
         styleModulePath = path_join [pagesDir, n @ ''.module.less'']
     in pagePath \<noteq> styleModulePath \<and>
        (existsSync w pagePath \<or> existsSync w styleModulePath \<longrightarrow>
           generatePage E opts w = (Inl (AssertionError (''Page '' @ n @ '' already exists.'')), w)) \<and>
        (\<not> existsSync w pagePath \<and> \<not> existsSync w styleModulePath \<and> \<not> mkdirFails E pagesDir \<and>
         \<not> writeFails E pagePath \<and> \<not> writeFails E styleModulePath \<longrightarrow>
           generatePage E opts w =
             (Inr (),
              \<lparr>fs = \<lparr>files = (files (fs w))
                           (pagePath \<mapsto> pageContent n (toUpperCase E [hd n] @ tl n),
                            styleModulePath \<mapsto> styleContent (randomColor E)),
                      dirs = set (ancestors pagesDir) \<union> dirs (fs w)\<rparr>,
               events = events w @
                 [EnsureDir pagesDir,
                  WriteFile pagePath (pageContent n (toUpperCase E [hd n] @ tl n)),
                  WriteFile styleModulePath (styleContent (randomColor E)),
                  Log (''Generated page at: '' @ pagePath),
                  Log (''Generated styles at: '' @ styleModulePath)]\<rparr>) \<and>
           files (fs w) pagePath = None \<and> files (fs w) styleModulePath = None)"
proof -
  define pagesDir where "pagesDir = path_join [cwd opts, ''src/pages'']"
  define pagePath where "pagePath = path_join [pagesDir, n @ ''.tsx'']"
  define styleModulePath where "styleModulePath = path_join [pagesDir, n @ ''.module.less'']"
  have "suffix ''tsx'' pagePath"
    unfolding pagePath_def using path_join_suffix [of "''tsx''" pagesDir "n @ ''.''"]
    by (simp add: slash_def)
  moreover have "suffix ''ess'' styleModulePath"
    unfolding styleModulePath_def using path_join_suffix [of "''ess''" pagesDir "n @ ''.module.l''"]
    by (simp add: slash_def)
  ultimately have ne: "pagePath \<noteq> styleModulePath"
    by (rule suffix_distinct) simp_all
  from assms have nf: "\<not> falsy (name opts)" and the: "the (name opts) = n"
    by (simp_all add: falsy_def)
  have ex: "existsSync w pagePath \<or> existsSync w styleModulePath \<longrightarrow>
        generatePage E opts w = (Inl (AssertionError (''Page '' @ n @ '' already exists.'')), w)"
    using nf the
    by (auto simp: generatePage_def Let_def pagesDir_def pagePath_def styleModulePath_def)
  have ok: "\<not> existsSync w pagePath \<and> \<not> existsSync w styleModulePath \<and> \<not> mkdirFails E pagesDir \<and>
         \<not> writeFails E pagePath \<and> \<not> writeFails E styleModulePath \<longrightarrow>
           generatePage E opts w =
             (Inr (),
              \<lparr>fs = \<lparr>files = (files (fs w))
                           (pagePath \<mapsto> pageContent n (toUpperCase E [hd n] @ tl n),
                            styleModulePath \<mapsto> styleContent (randomColor E)),
                      dirs = set (ancestors pagesDir) \<union> dirs (fs w)\<rparr>,
               events = events w @
                 [EnsureDir pagesDir,
                  WriteFile pagePath (pageContent n (toUpperCase E [hd n] @ tl n)),
                  WriteFile styleModulePath (styleContent (randomColor E)),
                  Log (''Generated page at: '' @ pagePath),
                  Log (''Generated styles at: '' @ styleModulePath)]\<rparr>) \<and>
           files (fs w) pagePath = None \<and> files (fs w) styleModulePath = None"
    using nf the
    by (simp add: generatePage_def Let_def pagesDir_def [symmetric] pagePath_def [symmetric]
        styleModulePath_def [symmetric] ensureDirSync_def writeFile_ok console_log_def
        existsSync_def emit_def)
  from ne ex ok show ?thesis
    unfolding Let_def pagesDir_def [symmetric] pagePath_def [symmetric] styleModulePath_def [symmetric]
    by blast
qed

theorem generatePage_two_files_witness:
  "name demo_opts = Some ''about'' \<and> ''about'' \<noteq> [] \<and>
   \<not> existsSync empty_world ''/p/src/pages/about.tsx'' \<and>
   \<not> existsSync empty_world ''/p/src/pages/about.module.less'' \<and>
   fst (generatePage demo_env demo_opts empty_world) = Inr () \<and>
   dom (files (fs (snd (generatePage demo_env demo_opts empty_world)))) =
     {''/p/src/pages/about.tsx'', ''/p/src/pages/about.module.less''} \<and>
   existsSync (world_with ''/p/src/pages/about.tsx'' ''old'') ''/p/src/pages/about.tsx'' \<and>
   generatePage demo_env demo_opts (world_with ''/p/src/pages/about.tsx'' ''old'') =
     (Inl (AssertionError ''Page about already exists.''), world_with ''/p/src/pages/about.tsx'' ''old'')"
proof -
  have n: "name demo_opts = Some ''about''" and ne: "''about'' \<noteq> []"
    by (simp_all add: demo_opts_def)
  have p1: "path_join [cwd demo_opts, ''src/pages''] = ''/p/src/pages''"
    by code_simp
  have p2: "path_join [''/p/src/pages'', ''about'' @ ''.tsx''] = ''/p/src/pages/about.tsx''"
    by code_simp
  have p3: "path_join [''/p/src/pages'', ''about'' @ ''.module.less''] = ''/p/src/pages/about.module.less''"
    by code_simp
  have e1: "\<not> existsSync empty_world ''/p/src/pages/about.tsx''"
    and e2: "\<not> existsSync empty_world ''/p/src/pages/about.module.less''"
    by (simp_all add: existsSync_def empty_world_def)
  have e3: "existsSync (world_with ''/p/src/pages/about.tsx'' ''old'') ''/p/src/pages/about.tsx''"
    by (simp add: existsSync_def world_with_def)
  have f: "\<not> mkdirFails demo_env ''/p/src/pages''" "\<not> writeFails demo_env ''/p/src/pages/about.tsx''"
    "\<not> writeFails demo_env ''/p/src/pages/about.module.less''"
    by (simp_all add: demo_env_def)
  from generatePage_two_files [OF n ne, of empty_world demo_env] e1 e2 f
  have a: "generatePage demo_env demo_opts empty_world =
             (Inr (),
              \<lparr>fs = \<lparr>files = (files (fs empty_world))
                           (''/p/src/pages/about.tsx'' \<mapsto> pageContent ''about'' (toUpperCase demo_env [hd ''about''] @ tl ''about''),
                            ''/p/src/pages/about.module.less'' \<mapsto> styleContent (randomColor demo_env)),
                      dirs = set (ancestors ''/p/src/pages'') \<union> dirs (fs empty_world)\<rparr>,
               events = events empty_world @
                 [EnsureDir ''/p/src/pages'',
                  WriteFile ''/p/src/pages/about.tsx'' (pageContent ''about'' (toUpperCase demo_env [hd ''about''] @ tl ''about'')),
                  WriteFile ''/p/src/pages/about.module.less'' (styleContent (randomColor demo_env)),
                  Log (''Generated page at: '' @ ''/p/src/pages/about.tsx''),
                  Log (''Generated styles at: '' @ ''/p/src/pages/about.module.less'')]\<rparr>)"
    unfolding Let_def p1 p2 p3 by blast
  from generatePage_two_files [OF n ne, of "world_with ''/p/src/pages/about.tsx'' ''old''" demo_env] e3
  have b: "generatePage demo_env demo_opts (world_with ''/p/src/pages/about.tsx'' ''old'') =
     (Inl (AssertionError (''Page '' @ ''about'' @ '' already exists.'')), world_with ''/p/src/pages/about.tsx'' ''old'')"
    unfolding Let_def p1 p2 p3 by blast
  from n ne e1 e2 e3 show ?thesis
    unfolding a b by (auto simp: empty_world_def)
qed

section \<open>The Tailwind generator\<close>

lemma ensureDirSync_ok:
  assumes "\<not> mkdirFails E d"
  shows "fst (ensureDirSync E d w) = Inr ()"
    and "files (fs (snd (ensureDirSync E d w))) = files (fs w)"
    and "dirs (fs (snd (ensureDirSync E d w))) = set (ancestors d) \<union> dirs (fs w)"
    and "events (snd (ensureDirSync E d w)) = events w @ [EnsureDir d]"
  using assms by (simp_all add: ensureDirSync_def Let_def emit_def)

text \<open>Creating a directory brings nothing into existence at a longer path.\<close>

lemma existsSync_ensureDirSync:
  assumes "length d < length p" and "d \<noteq> []"
  shows "existsSync (snd (ensureDirSync E d w)) p = existsSync w p"
proof -
  from ancestors_length [OF _ assms(2), of p] assms(1) have "p \<notin> set (ancestors d)"
    by auto
  then show ?thesis
    by (simp add: ensureDirSync_def Let_def existsSync_def emit_def)
qed

text \<open>The pieces of the writer, and the writer made of them.\<close>

lemma attempt_write_eq:
  "attempt_write E p c w =
     (if writeFails E p
      then (\<lparr>path = p, success = False,
              message = ''Failed to write file: '' @ error_text (IOError (errorMessage E ''writeFile'' p))\<rparr>,
            \<lparr>fs = fs w, events = events w @ [WriteFile p c]\<rparr>)
      else (\<lparr>path = p, success = True, message = ''Generated file at: '' @ p\<rparr>,
            \<lparr>fs = (fs w)\<lparr>files := (files (fs w))(p \<mapsto> c)\<rparr>, events = events w @ [WriteFile p c]\<rparr>))"
  by (simp add: attempt_write_def writeFile_ok writeFile_fails)

lemma writeFileWithConfirmation_pieces:
  "writeFileWithConfirmation E p c m w =
     (case until_await E p c m w of
        (Some r, w') \<Rightarrow> (r, w')
      | (None, w') \<Rightarrow> from_answer E p c m w')"
  by (simp add: writeFileWithConfirmation_def until_await_def from_answer_def attempt_write_def
      Let_def split: prod.splits sum.splits)

lemma from_answer_fst:
  "fst (from_answer E p c m w) =
     (if \<not> confirm E m then \<lparr>path = p, success = False, message = ''Skipped writing to '' @ p\<rparr>
      else fst (attempt_write E p c w))"
  by (simp add: from_answer_def)

lemma attempt_write_fst: "fst (attempt_write E p c w) = fst (attempt_write E p c w')"
  by (simp add: attempt_write_eq)

lemma attempt_write_files:
  "files (fs (snd (attempt_write E p c w))) =
     (if writeFails E p then files (fs w) else (files (fs w))(p \<mapsto> c))"
  by (simp add: attempt_write_eq)

lemma attempt_write_dirs: "dirs (fs (snd (attempt_write E p c w))) = dirs (fs w)"
  by (simp add: attempt_write_eq)

lemma attempt_write_events: "events (snd (attempt_write E p c w)) = events w @ [WriteFile p c]"
  by (simp add: attempt_write_eq)

text \<open>
  Two calls of the writer made together, on two different paths: the results and the file
  system are those of one call after the other; the questions come before the answers.
\<close>

lemma writeFileWithConfirmation_all_eq:
  assumes "p1 \<noteq> p2"
  shows "writeFileWithConfirmation_all E p1 c1 m1 p2 c2 m2 w =
     ([fst (writeFileWithConfirmation E p1 c1 m1 w), fst (writeFileWithConfirmation E p2 c2 m2 w)],
      \<lparr>fs = (fs w)\<lparr>files :=
              (let f1 = (if (\<not> existsSync w p1 \<or> confirm E m1) \<and> \<not> writeFails E p1
                         then (files (fs w))(p1 \<mapsto> c1) else files (fs w))
               in if (\<not> existsSync w p2 \<or> confirm E m2) \<and> \<not> writeFails E p2
                  then f1(p2 \<mapsto> c2) else f1)\<rparr>,
       events = events w
         @ (if existsSync w p1 then [Confirm m1] else [WriteFile p1 c1])
         @ (if existsSync w p2 then [Confirm m2] else [WriteFile p2 c2])
         @ (let a1 = (if existsSync w p1 \<and> confirm E m1 then [WriteFile p1 c1] else []);
                a2 = (if existsSync w p2 \<and> confirm E m2 then [WriteFile p2 c2] else [])
            in if existsSync w p1 \<and> existsSync w p2 \<and> \<not> answeredFirst E m1 m2
               then a2 @ a1 else a1 @ a2)\<rparr>)"
proof -
  have tw: "\<And>f. (f(p2 \<mapsto> c2))(p1 \<mapsto> c1) = (f(p1 \<mapsto> c1))(p2 \<mapsto> c2)"
    using assms by (simp add: fun_upd_twist)
  show ?thesis
    using assms
    by (simp add: writeFileWithConfirmation_all_def until_await_def from_answer_def attempt_write_eq
        writeFileWithConfirmation_def writeFile_def Let_def existsSync_def emit_def tw)
qed

lemma writeFileWithConfirmation_logged:
  "map (\<lambda>r. Log (message r)) (filter success [fst (writeFileWithConfirmation E p c m w)]) =
     (if (\<not> existsSync w p \<or> confirm E m) \<and> \<not> writeFails E p
      then [Log (''Generated file at: '' @ p)] else [])"
proof (cases "existsSync w p \<and> \<not> confirm E m")
  case True
  then show ?thesis by (simp add: writeFileWithConfirmation_skip)
next
  case False
  then have a: "\<not> existsSync w p \<or> confirm E m"
    by blast
  show ?thesis
  proof (cases "writeFails E p")
    case True
    from writeFileWithConfirmation_fail [OF a True] a True show ?thesis by simp
  next
    case f: False
    from writeFileWithConfirmation_write [OF a f] a f show ?thesis by simp
  qed
qed

lemma updateConfigFile_logged:
  "map (\<lambda>r. Log (message r)) (filter success [fst (updateConfigFile E d cfg w)]) =
     (if \<not> writeFails E (path_join [d, CONFIG_FILE E @ ''.ts''])
      then [Log (''Updated config file at: '' @ CONFIG_FILE E @ ''.ts'')] else [])"
  by (simp add: updateConfigFile_ok updateConfigFile_fails)

lemma generateTailwindcss_steps:
  assumes "\<not> mkdirFails E (path_join [cwd opts, ''src''])"
  shows "generateTailwindcss E opts w =
    (let w0 = snd (ensureDirSync E (path_join [cwd opts, ''src'']) w);
         x = writeFileWithConfirmation_all E
               (path_join [cwd opts, ''tailwind.config.js'']) tailwindConfig
               ''Tailwind config file already exists, do you want to overwrite?''
               (path_join [cwd opts, ''src/tailwind.css'']) tailwindCSS
               ''Tailwind CSS file already exists, do you want to overwrite?'' w0;
         y = updateConfigFile E (cwd opts) (set_prop ''tailwindcss'' (JBool True) (config opts)) (snd x)
     in (Inr (set_prop ''tailwindcss'' (JBool True) (config opts)),
         log_successes (fst x @ [fst y]) (snd y)))"
proof -
  obtain r w0 where e: "ensureDirSync E (path_join [cwd opts, ''src'']) w = (r, w0)"
    by (cases "ensureDirSync E (path_join [cwd opts, ''src'']) w")
  with ensureDirSync_ok(1) [OF assms, of w] have r: "r = Inr ()"
    by simp
  show ?thesis
    unfolding generateTailwindcss_def e r by (simp add: Let_def split_def)
qed

text \<open>The three paths of the Tailwind generator.\<close>

lemma tailwind_paths:
  fixes c :: string
  defines "srcDir \<equiv> path_join [c, ''src'']"
    and "tc \<equiv> path_join [c, ''tailwind.config.js'']"
    and "css \<equiv> path_join [c, ''src/tailwind.css'']"
  shows "srcDir \<noteq> []" and "length srcDir < length tc" and "length srcDir < length css"
    and "tc \<noteq> css"
proof -
  from path_join_base [of c] obtain b where
    b: "\<And>ss. ss \<noteq> [] \<Longrightarrow> \<forall>s \<in> set ss. normal_seg s \<Longrightarrow>
          path_join [c, join_with ''/'' ss] = b @ join_with ''/'' ss"
    by blast
  have n: "normal_seg ''src''" "normal_seg ''tailwind.config.js''" "normal_seg ''tailwind.css''"
    by (simp_all add: normal_seg_def slash_def)
  from b [of "[''src'']"] n have e1: "srcDir = b @ ''src''"
    by (simp add: srcDir_def)
  from b [of "[''tailwind.config.js'']"] n have e2: "tc = b @ ''tailwind.config.js''"
    by (simp add: tc_def)
  from b [of "[''src'', ''tailwind.css'']"] n have e3: "css = b @ ''src/tailwind.css''"
    by (simp add: css_def)
  show "srcDir \<noteq> []" "length srcDir < length tc" "length srcDir < length css" "tc \<noteq> css"
    unfolding e1 e2 e3 by simp_all
qed

lemma tailwind_paths_config:
  "path_join [c, k @ ''.ts''] \<noteq> path_join [c, ''tailwind.config.js'']"
  "path_join [c, k @ ''.ts''] \<noteq> path_join [c, ''src/tailwind.css'']"
proof -
  have s2: "suffix ''.js'' (path_join [c, ''tailwind.config.js''])"
    using path_join_suffix [of "''.js''" c "''tailwind.config''"] by (simp add: slash_def)
  have s3: "suffix ''css'' (path_join [c, ''src/tailwind.css''])"
    using path_join_suffix [of "''css''" c "''src/tailwind.''"] by (simp add: slash_def)
  have s4: "suffix ''.ts'' (path_join [c, k @ ''.ts''])"
    using path_join_suffix [of "''.ts''" c k] by (simp add: slash_def)
  from suffix_distinct [OF s4 s2] suffix_distinct [OF s4 s3]
  show "path_join [c, k @ ''.ts''] \<noteq> path_join [c, ''tailwind.config.js'']"
    "path_join [c, k @ ''.ts''] \<noteq> path_join [c, ''src/tailwind.css'']"
    by simp_all
qed

text \<open>
  C5. When the source directory can be ensured, the Tailwind generator returns the
  configuration with \<^verbatim>\<open>tailwindcss\<close> set to true, whatever became of the two writes. The
  trace is known in full: the directory is ensured; each of the two calls tests its path
  and puts its question or starts its write, the first before the second; the writes that
  waited for an answer follow, in the order of the answers; only then is the
  configuration file written, once, with the configuration that holds the flag (the file
  holds it unless that write fails); nothing but lines of output comes after. Each of the
  two files depends on its own question and its own write only: a file whose overwrite is
  declined keeps its content, and a file that is absent or whose overwrite is accepted
  holds the new content when its write does not fail.
\<close>

theorem generateTailwindcss_flag_and_independence:
  assumes "\<not> mkdirFails E (path_join [cwd opts, ''src''])"
  shows
    "let srcDir = path_join [cwd opts, ''src''];
         tailwindConfigPath = path_join [cwd opts, ''tailwind.config.js''];
         tailwindCSSPath = path_join [cwd opts, ''src/tailwind.css''];
         configPath = path_join [cwd opts, CONFIG_FILE E @ ''.ts''];
         config' = set_prop ''tailwindcss'' (JBool True) (config opts);
         configContent = ''export default '' @ unquote_keys (stringify 0 (JObj config'));
         askConfig = ''Tailwind config file already exists, do you want to overwrite?'';
         askCSS = ''Tailwind CSS file already exists, do you want to overwrite?'';
         w' = snd (generateTailwindcss E opts w);
         started =
           (if existsSync w tailwindConfigPath then [Confirm askConfig]
            else [WriteFile tailwindConfigPath tailwindConfig])
           @ (if existsSync w tailwindCSSPath then [Confirm askCSS]
              else [WriteFile tailwindCSSPath tailwindCSS]);
         answerConfig =
           (if existsSync w tailwindConfigPath \<and> confirm E askConfig
            then [WriteFile tailwindConfigPath tailwindConfig] else []);
         answerCSS =
           (if existsSync w tailwindCSSPath \<and> confirm E askCSS
            then [WriteFile tailwindCSSPath tailwindCSS] else []);
         answers =
           (if existsSync w tailwindConfigPath \<and> existsSync w tailwindCSSPath
               \<and> \<not> answeredFirst E askConfig askCSS
            then answerCSS @ answerConfig else answerConfig @ answerCSS);
         logs =
           (if (\<not> existsSync w tailwindConfigPath \<or> confirm E askConfig)
               \<and> \<not> writeFails E tailwindConfigPath
            then [Log (''Generated file at: '' @ tailwindConfigPath)] else [])
           @ (if (\<not> existsSync w tailwindCSSPath \<or> confirm E askCSS)
                 \<and> \<not> writeFails E tailwindCSSPath
              then [Log (''Generated file at: '' @ tailwindCSSPath)] else [])
           @ (if \<not> writeFails E configPath
              then [Log (''Updated config file at: '' @ CONFIG_FILE E @ ''.ts'')] else [])
     in fst (generateTailwindcss E opts w) = Inr config' \<and>
        map_of config' ''tailwindcss'' = Some (JBool True) \<and>
        events w' =
          events w @ [EnsureDir srcDir] @ started @ answers
            @ [WriteFile configPath configContent] @ logs \<and>
        (\<forall>e \<in> set logs. is_Log e) \<and>
        configPath \<noteq> tailwindConfigPath \<and> configPath \<noteq> tailwindCSSPath \<and>
        tailwindConfigPath \<noteq> tailwindCSSPath \<and>
        (\<not> writeFails E configPath \<longrightarrow> files (fs w') configPath = Some configContent) \<and>
        (existsSync w tailwindConfigPath \<and> \<not> confirm E askConfig \<longrightarrow>
           files (fs w') tailwindConfigPath = files (fs w) tailwindConfigPath) \<and>
        ((\<not> existsSync w tailwindConfigPath \<or> confirm E askConfig) \<and> \<not> writeFails E tailwindConfigPath \<longrightarrow>
           files (fs w') tailwindConfigPath = Some tailwindConfig) \<and>
        (existsSync w tailwindCSSPath \<and> \<not> confirm E askCSS \<longrightarrow>
           files (fs w') tailwindCSSPath = files (fs w) tailwindCSSPath) \<and>
        ((\<not> existsSync w tailwindCSSPath \<or> confirm E askCSS) \<and> \<not> writeFails E tailwindCSSPath \<longrightarrow>
           files (fs w') tailwindCSSPath = Some tailwindCSS)"
proof -
  define srcDir where "srcDir = path_join [cwd opts, ''src'']"
  define tc where "tc = path_join [cwd opts, ''tailwind.config.js'']"
  define css where "css = path_join [cwd opts, ''src/tailwind.css'']"
  define cp where "cp = path_join [cwd opts, CONFIG_FILE E @ ''.ts'']"
  define cfg where "cfg = set_prop ''tailwindcss'' (JBool True) (config opts)"
  define cc where "cc = ''export default '' @ unquote_keys (stringify 0 (JObj cfg))"
  define ask1 where "ask1 = ''Tailwind config file already exists, do you want to overwrite?''"
  define ask2 where "ask2 = ''Tailwind CSS file already exists, do you want to overwrite?''"
  define w0 where "w0 = snd (ensureDirSync E srcDir w)"
  define x where "x = writeFileWithConfirmation_all E tc tailwindConfig ask1 css tailwindCSS ask2 w0"
  define y where "y = updateConfigFile E (cwd opts) cfg (snd x)"
  define started where "started =
      (if existsSync w tc then [Confirm ask1] else [WriteFile tc tailwindConfig])
      @ (if existsSync w css then [Confirm ask2] else [WriteFile css tailwindCSS])"
  define answers where "answers =
      (let a1 = (if existsSync w tc \<and> confirm E ask1 then [WriteFile tc tailwindConfig] else []);
           a2 = (if existsSync w css \<and> confirm E ask2 then [WriteFile css tailwindCSS] else [])
       in if existsSync w tc \<and> existsSync w css \<and> \<not> answeredFirst E ask1 ask2
          then a2 @ a1 else a1 @ a2)"
  define logs where "logs =
      (if (\<not> existsSync w tc \<or> confirm E ask1) \<and> \<not> writeFails E tc
       then [Log (''Generated file at: '' @ tc)] else [])
      @ (if (\<not> existsSync w css \<or> confirm E ask2) \<and> \<not> writeFails E css
         then [Log (''Generated file at: '' @ css)] else [])
      @ (if \<not> writeFails E cp
         then [Log (''Updated config file at: '' @ CONFIG_FILE E @ ''.ts'')] else [])"
  have g: "generateTailwindcss E opts w = (Inr cfg, log_successes (fst x @ [fst y]) (snd y))"
    unfolding generateTailwindcss_steps [OF assms] Let_def y_def x_def w0_def
      srcDir_def tc_def css_def cfg_def ask1_def ask2_def ..
  note tp = tailwind_paths [of "cwd opts", folded srcDir_def tc_def css_def]
  note tq = tailwind_paths_config [of "cwd opts" "CONFIG_FILE E", folded tc_def css_def cp_def]
  note en = ensureDirSync_ok [OF assms, of w, folded srcDir_def w0_def]
  have e1: "existsSync w0 tc = existsSync w tc"
    unfolding w0_def by (rule existsSync_ensureDirSync [OF tp(2) tp(1)])
  have e2: "existsSync w0 css = existsSync w css"
    unfolding w0_def by (rule existsSync_ensureDirSync [OF tp(3) tp(1)])
  note xe = writeFileWithConfirmation_all_eq [OF tp(4), of E tailwindConfig ask1 tailwindCSS ask2 w0,
      folded x_def, unfolded e1 e2 en]
  have fx: "files (fs (snd x)) =
      (let f1 = (if (\<not> existsSync w tc \<or> confirm E ask1) \<and> \<not> writeFails E tc
                 then (files (fs w))(tc \<mapsto> tailwindConfig) else files (fs w))
       in if (\<not> existsSync w css \<or> confirm E ask2) \<and> \<not> writeFails E css
          then f1(css \<mapsto> tailwindCSS) else f1)"
    unfolding xe by simp
  have ex: "events (snd x) = events w @ [EnsureDir srcDir] @ started @ answers"
    unfolding xe started_def answers_def by simp
  have rx: "fst x = [fst (writeFileWithConfirmation E tc tailwindConfig ask1 w0),
                     fst (writeFileWithConfirmation E css tailwindCSS ask2 w0)]"
    unfolding xe by simp
  have fy: "files (fs (snd y)) =
      (if writeFails E cp then files (fs (snd x)) else (files (fs (snd x)))(cp \<mapsto> cc))"
    unfolding y_def updateConfigFile_files cp_def cc_def ..
  have ey: "events (snd y) = events (snd x) @ [WriteFile cp cc]"
    unfolding y_def updateConfigFile_events cp_def cc_def ..
  define r1 where "r1 = fst (writeFileWithConfirmation E tc tailwindConfig ask1 w0)"
  define r2 where "r2 = fst (writeFileWithConfirmation E css tailwindCSS ask2 w0)"
  have l1: "map (\<lambda>r. Log (message r)) (filter success [r1]) =
      (if (\<not> existsSync w tc \<or> confirm E ask1) \<and> \<not> writeFails E tc
       then [Log (''Generated file at: '' @ tc)] else [])"
    unfolding r1_def writeFileWithConfirmation_logged e1 ..
  have l2: "map (\<lambda>r. Log (message r)) (filter success [r2]) =
      (if (\<not> existsSync w css \<or> confirm E ask2) \<and> \<not> writeFails E css
       then [Log (''Generated file at: '' @ css)] else [])"
    unfolding r2_def writeFileWithConfirmation_logged e2 ..
  have l3: "map (\<lambda>r. Log (message r)) (filter success [fst y]) =
      (if \<not> writeFails E cp
       then [Log (''Updated config file at: '' @ CONFIG_FILE E @ ''.ts'')] else [])"
    unfolding y_def updateConfigFile_logged cp_def ..
  have "fst x @ [fst y] = [r1] @ [r2] @ [fst y]"
    unfolding rx r1_def r2_def by simp
  then have "map (\<lambda>r. Log (message r)) (filter success (fst x @ [fst y])) =
      map (\<lambda>r. Log (message r)) (filter success [r1])
      @ map (\<lambda>r. Log (message r)) (filter success [r2])
      @ map (\<lambda>r. Log (message r)) (filter success [fst y])"
    by (simp only: filter_append map_append)
  then have lg: "map (\<lambda>r. Log (message r)) (filter success (fst x @ [fst y])) = logs"
    unfolding l1 l2 l3 logs_def .
  have fin: "files (fs (snd (generateTailwindcss E opts w))) = files (fs (snd y))"
    unfolding g by simp
  have c1: "fst (generateTailwindcss E opts w) = Inr cfg"
    unfolding g by simp
  have c2: "map_of cfg ''tailwindcss'' = Some (JBool True)"
    unfolding cfg_def by simp
  have c3: "events (snd (generateTailwindcss E opts w)) =
      events w @ [EnsureDir srcDir] @ started @ answers @ [WriteFile cp cc] @ logs"
    unfolding g snd_conv log_successes_events lg ey ex by simp
  have cl: "\<forall>e \<in> set logs. is_Log e"
    unfolding logs_def by auto
  note d = tq tp(4)
  have c4: "\<not> writeFails E cp \<longrightarrow> files (fs (snd (generateTailwindcss E opts w))) cp = Some cc"
    unfolding fin fy by simp
  have c5: "existsSync w tc \<and> \<not> confirm E ask1 \<longrightarrow>
      files (fs (snd (generateTailwindcss E opts w))) tc = files (fs w) tc"
    unfolding fin fy fx Let_def using d by simp
  have c6: "(\<not> existsSync w tc \<or> confirm E ask1) \<and> \<not> writeFails E tc \<longrightarrow>
      files (fs (snd (generateTailwindcss E opts w))) tc = Some tailwindConfig"
    unfolding fin fy fx Let_def using d by auto
  have c7: "existsSync w css \<and> \<not> confirm E ask2 \<longrightarrow>
      files (fs (snd (generateTailwindcss E opts w))) css = files (fs w) css"
    unfolding fin fy fx Let_def using d by simp
  have c8: "(\<not> existsSync w css \<or> confirm E ask2) \<and> \<not> writeFails E css \<longrightarrow>
      files (fs (snd (generateTailwindcss E opts w))) css = Some tailwindCSS"
    unfolding fin fy fx Let_def using d by auto
  from c1 c2 c3 cl d c4 c5 c6 c7 c8 show ?thesis
    unfolding Let_def srcDir_def [symmetric] tc_def [symmetric] css_def [symmetric]
      cp_def [symmetric] cfg_def [symmetric] cc_def [symmetric] ask1_def [symmetric]
      ask2_def [symmetric]
      started_def [symmetric] answers_def [unfolded Let_def, symmetric] logs_def [symmetric]
    by blast
qed

theorem generateTailwindcss_flag_and_independence_witness:
  "\<not> mkdirFails demo_env (path_join [cwd demo_opts, ''src'']) \<and>
   existsSync (world_with ''/p/tailwind.config.js'' ''mine'') ''/p/tailwind.config.js'' \<and>
   \<not> confirm demo_env ''Tailwind config file already exists, do you want to overwrite?'' \<and>
   \<not> existsSync (world_with ''/p/tailwind.config.js'' ''mine'') ''/p/src/tailwind.css'' \<and>
   fst (generateTailwindcss demo_env demo_opts (world_with ''/p/tailwind.config.js'' ''mine''))
     = Inr [(''tailwindcss'', JBool True)] \<and>
   events (snd (generateTailwindcss demo_env demo_opts (world_with ''/p/tailwind.config.js'' ''mine'')))
     = [EnsureDir ''/p/src'',
        Confirm ''Tailwind config file already exists, do you want to overwrite?'',
        WriteFile ''/p/src/tailwind.css'' tailwindCSS,
        WriteFile ''/p/.tnfrc.ts''
          (''export default '' @ unquote_keys (stringify 0 (JObj [(''tailwindcss'', JBool True)]))),
        Log ''Generated file at: /p/src/tailwind.css'',
        Log ''Updated config file at: .tnfrc.ts''] \<and>
   files (fs (snd (generateTailwindcss demo_env demo_opts (world_with ''/p/tailwind.config.js'' ''mine''))))
     ''/p/tailwind.config.js'' = Some ''mine'' \<and>
   files (fs (snd (generateTailwindcss demo_env demo_opts (world_with ''/p/tailwind.config.js'' ''mine''))))
     ''/p/src/tailwind.css'' = Some tailwindCSS \<and>
   files (fs (snd (generateTailwindcss demo_env demo_opts (world_with ''/p/tailwind.config.js'' ''mine''))))
     ''/p/.tnfrc.ts'' =
       Some (''export default '' @ unquote_keys (stringify 0 (JObj [(''tailwindcss'', JBool True)])))"
proof -
  let ?w = "world_with ''/p/tailwind.config.js'' ''mine''"
  have c: "cwd demo_opts = ''/p''" and cf: "config demo_opts = []"
    by (simp_all add: demo_opts_def)
  have p0: "path_join [''/p'', ''src''] = ''/p/src''"
    by code_simp
  have p1: "path_join [''/p'', ''tailwind.config.js''] = ''/p/tailwind.config.js''"
    by code_simp
  have p2: "path_join [''/p'', ''src/tailwind.css''] = ''/p/src/tailwind.css''"
    by code_simp
  have p3: "path_join [''/p'', ''.tnfrc'' @ ''.ts''] = ''/p/.tnfrc.ts''"
    by code_simp
  have cn: "CONFIG_FILE demo_env = ''.tnfrc''"
    by (simp add: demo_env_def)
  have h0: "\<not> mkdirFails demo_env (path_join [cwd demo_opts, ''src''])"
    by (simp add: demo_env_def)
  have h1: "existsSync ?w ''/p/tailwind.config.js''"
    and h2: "\<not> existsSync ?w ''/p/src/tailwind.css''"
    and h3: "files (fs ?w) ''/p/tailwind.config.js'' = Some ''mine''"
    and ev: "events ?w = []"
    by (simp_all add: existsSync_def world_with_def)
  have h4: "\<not> confirm demo_env ''Tailwind config file already exists, do you want to overwrite?''"
    and h5: "\<not> writeFails demo_env ''/p/src/tailwind.css''"
    and h6: "\<not> writeFails demo_env ''/p/.tnfrc.ts''"
    by (simp_all add: demo_env_def)
  have sp: "set_prop ''tailwindcss'' (JBool True) [] = [(''tailwindcss'', JBool True)]"
    by simp
  note T = generateTailwindcss_flag_and_independence
             [OF h0, of ?w, unfolded Let_def c cf cn p0 p1 p2 p3 sp]
  from T h1 h2 h3 h4 h5 h6 ev
  have "fst (generateTailwindcss demo_env demo_opts ?w) = Inr [(''tailwindcss'', JBool True)] \<and>
   events (snd (generateTailwindcss demo_env demo_opts ?w))
     = [EnsureDir ''/p/src'',
        Confirm ''Tailwind config file already exists, do you want to overwrite?'',
        WriteFile ''/p/src/tailwind.css'' tailwindCSS,
        WriteFile ''/p/.tnfrc.ts''
          (''export default '' @ unquote_keys (stringify 0 (JObj [(''tailwindcss'', JBool True)]))),
        Log ''Generated file at: /p/src/tailwind.css'',
        Log ''Updated config file at: .tnfrc.ts''] \<and>
   files (fs (snd (generateTailwindcss demo_env demo_opts ?w))) ''/p/tailwind.config.js'' = Some ''mine'' \<and>
   files (fs (snd (generateTailwindcss demo_env demo_opts ?w))) ''/p/src/tailwind.css'' = Some tailwindCSS \<and>
   files (fs (snd (generateTailwindcss demo_env demo_opts ?w))) ''/p/.tnfrc.ts'' =
       Some (''export default '' @ unquote_keys (stringify 0 (JObj [(''tailwindcss'', JBool True)])))"
    by simp
  with h0 h1 h2 h4 show ?thesis
    by blast
qed

section \<open>The entry generator\<close>

lemma generateEntry_steps:
  "generateEntry E opts w =
    (let tnfPath = path_join [cwd opts, ''src/.'' @ FRAMEWORK_NAME E];
         clientSrcPath = path_join [tnfPath, ''client.tsx''];
         clientDestPath = path_join [cwd opts, ''src/client.tsx''];
         w1 = (if \<not> existsSync w tnfPath
               then sync_world E (loadConfig E (cwd opts) (fs w)) (cwd opts) tnfPath ''development''
                      (emit (LoadConfig (cwd opts)) w)
               else w)
     in if \<not> existsSync w1 clientSrcPath
        then (Inl (Error ''client.tsx template not found in .tnf directory''), w1)
        else
          (case files (fs w1) clientSrcPath of
             None \<Rightarrow> (Inl (IOError (errorMessage E ''readFile'' clientSrcPath)),
                      emit (ReadFile clientSrcPath) w1)
           | Some content \<Rightarrow>
               let x = writeFileWithConfirmation E clientDestPath
                         (processImportPaths (processCwd E) content clientSrcPath clientDestPath)
                         ''client.tsx already exists. Do you want to overwrite it?''
                         (emit (ReadFile clientSrcPath) w1);
                   config' = set_prop ''entry''
                           (JObj (set_prop ''client'' (JStr ''src/client.tsx'')
                              (spread (map_of (config opts) ''entry''))))
                           (config opts);
                   y = updateConfigFile E (cwd opts) config' (snd x);
                   w5 = console_log (message (fst x)) (snd y)
               in if success (fst x)
                  then (Inr config', if success (fst y) then console_log (message (fst y)) w5 else w5)
                  else (Inr (config opts), snd x)))"
  by (simp add: generateEntry_def readFile_def Let_def split_def split: option.splits)

lemma sync_world_simps [simp]:
  "fs (sync_world E c d t m w) = sync E c d t m (fs w)"
  "events (sync_world E c d t m w) = events w @ [Sync c d t m]"
  by (simp_all add: sync_world_def emit_def)

lemma existsSync_sync_world:
  "existsSync (sync_world E c d t m w) p =
     (files (sync E c d t m (fs w)) p \<noteq> None \<or> p \<in> dirs (sync E c d t m (fs w)))"
  by (simp add: existsSync_def)

lemma console_log_simps [simp]:
  "fs (console_log m w) = fs w"
  "events (console_log m w) = events w @ [Log m]"
  by (simp_all add: console_log_def)

text \<open>What the entry generator appends to the trace once the template directory is settled.\<close>

lemma generateEntry_no_sync_after:
  assumes "w1 = (if \<not> existsSync w (path_join [cwd opts, ''src/.'' @ FRAMEWORK_NAME E])
               then sync_world E (loadConfig E (cwd opts) (fs w)) (cwd opts)
                      (path_join [cwd opts, ''src/.'' @ FRAMEWORK_NAME E]) ''development''
                      (emit (LoadConfig (cwd opts)) w)
               else w)"
  shows "\<exists>after. events (snd (generateEntry E opts w)) = events w1 @ after \<and>
                 (\<forall>e \<in> set after. \<not> is_Sync e)"
proof -
  define src where "src = path_join [path_join [cwd opts, ''src/.'' @ FRAMEWORK_NAME E], ''client.tsx'']"
  define dest where "dest = path_join [cwd opts, ''src/client.tsx'']"
  show ?thesis
  proof (cases "existsSync w1 src")
    case False
    then have "snd (generateEntry E opts w) = w1"
      unfolding generateEntry_steps Let_def assms [symmetric] src_def by simp
    then show ?thesis
      by simp
  next
    case True
    show ?thesis
    proof (cases "files (fs w1) src")
      case None
      with True have "snd (generateEntry E opts w) = emit (ReadFile src) w1"
        unfolding generateEntry_steps Let_def assms [symmetric] src_def by simp
      then show ?thesis
        by simp
    next
      case (Some content)
      define x where "x = writeFileWithConfirmation E dest
                         (processImportPaths (processCwd E) content src dest)
                         ''client.tsx already exists. Do you want to overwrite it?''
                         (emit (ReadFile src) w1)"
      define cfg where "cfg = set_prop ''entry''
                           (JObj (set_prop ''client'' (JStr ''src/client.tsx'')
                              (spread (map_of (config opts) ''entry''))))
                           (config opts)"
      define y where "y = updateConfigFile E (cwd opts) cfg (snd x)"
      have g: "snd (generateEntry E opts w) =
          (if success (fst x)
           then (if success (fst y) then console_log (message (fst y)) (console_log (message (fst x)) (snd y))
                 else console_log (message (fst x)) (snd y))
           else snd x)"
        using True Some
        unfolding generateEntry_steps Let_def assms [symmetric] src_def [symmetric] dest_def [symmetric]
          x_def y_def cfg_def
        by simp
      have ex: "\<exists>a. events (snd x) = events w1 @ a \<and> (\<forall>e \<in> set a. \<not> is_Sync e)"
        unfolding x_def writeFileWithConfirmation_events by simp
      then obtain a where a: "events (snd x) = events w1 @ a" "\<forall>e \<in> set a. \<not> is_Sync e"
        by blast
      have ey: "events (snd y) = events (snd x) @
          [WriteFile (path_join [cwd opts, CONFIG_FILE E @ ''.ts''])
             (''export default '' @ unquote_keys (stringify 0 (JObj cfg)))]"
        unfolding y_def by (rule updateConfigFile_events)
      show ?thesis
        unfolding g using a ey by auto
    qed
  qed
qed

text \<open>
  C4. When the template directory is absent, the entry generator loads the configuration
  and calls \<^verbatim>\<open>sync\<close> before anything else, and never again: whatever follows in the trace,
  the read of the template included, comes after that one call. If the template is still
  absent from what \<^verbatim>\<open>sync\<close> left, the generator raises the explicit error; the trace ends
  with the call of \<^verbatim>\<open>sync\<close>, so nothing was read or written, and the file system is the
  one \<^verbatim>\<open>sync\<close> left.
\<close>

theorem generateEntry_sync_once:
  "let tnfPath = path_join [cwd opts, ''src/.'' @ FRAMEWORK_NAME E];
       clientSrcPath = path_join [tnfPath, ''client.tsx''];
       loaded = loadConfig E (cwd opts) (fs w);
       synced = sync E loaded (cwd opts) tnfPath ''development'' (fs w);
       started = events w @ [LoadConfig (cwd opts), Sync loaded (cwd opts) tnfPath ''development'']
   in \<not> existsSync w tnfPath \<longrightarrow>
        (\<exists>after. events (snd (generateEntry E opts w)) = started @ after \<and>
                  (\<forall>e \<in> set after. \<not> is_Sync e)) \<and>
        (files synced clientSrcPath = None \<and> clientSrcPath \<notin> dirs synced \<longrightarrow>
           generateEntry E opts w =
             (Inl (Error ''client.tsx template not found in .tnf directory''),
              \<lparr>fs = synced, events = started\<rparr>))"
proof -
  define tnfPath where "tnfPath = path_join [cwd opts, ''src/.'' @ FRAMEWORK_NAME E]"
  define src where "src = path_join [tnfPath, ''client.tsx'']"
  define loaded where "loaded = loadConfig E (cwd opts) (fs w)"
  define synced where "synced = sync E loaded (cwd opts) tnfPath ''development'' (fs w)"
  define started where
    "started = events w @ [LoadConfig (cwd opts), Sync loaded (cwd opts) tnfPath ''development'']"
  define w1 where "w1 = sync_world E loaded (cwd opts) tnfPath ''development'' (emit (LoadConfig (cwd opts)) w)"
  have w1: "w1 = \<lparr>fs = synced, events = started\<rparr>"
    unfolding w1_def synced_def started_def by (simp add: sync_world_def emit_def)
  {
    assume absent: "\<not> existsSync w tnfPath"
    then have eq: "w1 = (if \<not> existsSync w (path_join [cwd opts, ''src/.'' @ FRAMEWORK_NAME E])
               then sync_world E (loadConfig E (cwd opts) (fs w)) (cwd opts)
                      (path_join [cwd opts, ''src/.'' @ FRAMEWORK_NAME E]) ''development''
                      (emit (LoadConfig (cwd opts)) w)
               else w)"
      unfolding w1_def tnfPath_def loaded_def by simp
    from generateEntry_no_sync_after [OF eq]
    have a: "\<exists>after. events (snd (generateEntry E opts w)) = started @ after \<and>
                  (\<forall>e \<in> set after. \<not> is_Sync e)"
      unfolding w1 by simp
    have b: "files synced src = None \<and> src \<notin> dirs synced \<longrightarrow>
           generateEntry E opts w =
             (Inl (Error ''client.tsx template not found in .tnf directory''),
              \<lparr>fs = synced, events = started\<rparr>)"
    proof
      assume "files synced src = None \<and> src \<notin> dirs synced"
      then have nx: "\<not> existsSync w1 src"
        unfolding w1 by (simp add: existsSync_def)
      have "generateEntry E opts w =
            (Inl (Error ''client.tsx template not found in .tnf directory''), w1)"
        using nx absent unfolding w1_def loaded_def src_def tnfPath_def generateEntry_steps Let_def
        by simp
      then show "generateEntry E opts w =
             (Inl (Error ''client.tsx template not found in .tnf directory''),
              \<lparr>fs = synced, events = started\<rparr>)"
        unfolding w1 .
    qed
    note a b
  }
  then show ?thesis
    unfolding Let_def tnfPath_def [symmetric] src_def [symmetric] loaded_def [symmetric]
      synced_def [symmetric] started_def [symmetric]
    by blast
qed

theorem generateEntry_sync_once_witness:
  "\<not> existsSync empty_world ''/p/src/.tnf'' \<and>
   files (sync demo_env [] ''/p'' ''/p/src/.tnf'' ''development'' (fs empty_world))
     ''/p/src/.tnf/client.tsx'' = None \<and>
   generateEntry demo_env demo_opts empty_world =
     (Inl (Error ''client.tsx template not found in .tnf directory''),
      \<lparr>fs = fs empty_world,
       events = [LoadConfig ''/p'', Sync [] ''/p'' ''/p/src/.tnf'' ''development'']\<rparr>)"
proof -
  have p1: "path_join [''/p'', ''src/.'' @ FRAMEWORK_NAME demo_env] = ''/p/src/.tnf''"
    by code_simp
  have p2: "path_join [''/p/src/.tnf'', ''client.tsx''] = ''/p/src/.tnf/client.tsx''"
    by code_simp
  have c: "cwd demo_opts = ''/p''" and l: "loadConfig demo_env ''/p'' (fs empty_world) = []"
    and s: "sync demo_env [] ''/p'' ''/p/src/.tnf'' ''development'' (fs empty_world) = fs empty_world"
    by (simp_all add: demo_opts_def demo_env_def)
  have h1: "\<not> existsSync empty_world ''/p/src/.tnf''"
    by (simp add: existsSync_def empty_world_def)
  have h2: "files (fs empty_world) ''/p/src/.tnf/client.tsx'' = None"
    and h3: "''/p/src/.tnf/client.tsx'' \<notin> dirs (fs empty_world)"
    and ev: "events empty_world = []"
    by (simp_all add: empty_world_def)
  from generateEntry_sync_once [of demo_opts demo_env empty_world] h1 h2 h3
  have "generateEntry demo_env demo_opts empty_world =
     (Inl (Error ''client.tsx template not found in .tnf directory''),
      \<lparr>fs = fs empty_world,
       events = events empty_world @ [LoadConfig ''/p'', Sync [] ''/p'' ''/p/src/.tnf'' ''development'']\<rparr>)"
    unfolding Let_def c p1 p2 l s by blast
  with h1 h2 show ?thesis
    unfolding s ev by simp
qed




section \<open>Unquoting the keys\<close>

lemma match_key_not_dq: "c \<noteq> dq \<Longrightarrow> match_key (c # t) = None"
  by (simp add: match_key_def)

lemma unquote_keys_None: "match_key (c # t) = None \<Longrightarrow> unquote_keys (c # t) = c # unquote_keys t"
  by (subst unquote_keys.simps) simp

lemma unquote_keys_Some: "match_key s = Some (k, rest) \<Longrightarrow> unquote_keys s = k @ '':'' @ unquote_keys rest"
  by (subst unquote_keys.simps) simp

lemma unquote_keys_Nil: "unquote_keys [] = []"
  by (subst unquote_keys.simps) (simp add: match_key_def)

lemma unquote_keys_copy: "dq \<notin> set g \<Longrightarrow> unquote_keys (g @ t) = g @ unquote_keys t"
proof (induction g)
  case Nil
  then show ?case by simp
next
  case (Cons a g)
  then have "a \<noteq> dq"
    by auto
  from unquote_keys_None [OF match_key_not_dq [OF this]] Cons show ?case
    by simp
qed

lemma takeWhile_no_dq: "dq \<notin> set b \<Longrightarrow> takeWhile (\<lambda>c. c \<noteq> dq) (b @ dq # t) = b"
  by (induction b) auto

lemma dropWhile_no_dq: "dq \<notin> set b \<Longrightarrow> dropWhile (\<lambda>c. c \<noteq> dq) (b @ dq # t) = dq # t"
  by (induction b) auto

lemma match_key_key:
  "dq \<notin> set b \<Longrightarrow> b \<noteq> [] \<Longrightarrow> match_key (dq # b @ dq # CHR '':'' # t) = Some (b, t)"
  by (simp add: match_key_def takeWhile_no_dq dropWhile_no_dq)

lemma match_key_calm:
  assumes "calm t"
  shows "match_key (dq # t) = None"
proof -
  define d where "d = dropWhile (\<lambda>c. c \<noteq> dq) t"
  have m: "match_key (dq # t) =
      (case d of _ # c # rest \<Rightarrow>
         if takeWhile (\<lambda>c. c \<noteq> dq) t \<noteq> [] \<and> c = CHR '':'' then Some (takeWhile (\<lambda>c. c \<noteq> dq) t, rest)
         else None
       | _ \<Rightarrow> None)"
    unfolding match_key_def d_def by (simp add: Let_def)
  from assms have c: "case d of _ # c # _ \<Rightarrow> c \<noteq> CHR '':'' | _ \<Rightarrow> True"
    unfolding calm_def d_def .
  show ?thesis
  proof (cases d)
    case Nil
    with m show ?thesis by simp
  next
    case (Cons x xs)
    with m c show ?thesis by (cases xs) simp_all
  qed
qed

lemma match_key_value:
  assumes "dq \<notin> set b" and "not_colon_first t"
  shows "match_key (dq # b @ dq # t) = None"
  using assms
  by (cases t) (simp_all add: match_key_def takeWhile_no_dq dropWhile_no_dq not_colon_first_def)

lemma unquote_keys_key:
  "dq \<notin> set b \<Longrightarrow> b \<noteq> [] \<Longrightarrow>
   unquote_keys (dq # b @ dq # CHR '':'' # t) = b @ CHR '':'' # unquote_keys t"
  using unquote_keys_Some [OF match_key_key] by simp

lemma unquote_keys_value:
  assumes "dq \<notin> set b" and "not_colon_first t" and "calm t"
  shows "unquote_keys (dq # b @ dq # t) = dq # b @ dq # unquote_keys t"
proof -
  have "unquote_keys (dq # b @ dq # t) = dq # unquote_keys (b @ dq # t)"
    by (rule unquote_keys_None [OF match_key_value [OF assms(1,2)]])
  also have "unquote_keys (b @ dq # t) = b @ unquote_keys (dq # t)"
    by (rule unquote_keys_copy [OF assms(1)])
  also have "unquote_keys (dq # t) = dq # unquote_keys t"
    by (rule unquote_keys_None [OF match_key_calm [OF assms(3)]])
  finally show ?thesis .
qed

lemma calm_copy: "dq \<notin> set g \<Longrightarrow> calm (g @ t) = calm t"
proof -
  assume "dq \<notin> set g"
  then have "dropWhile (\<lambda>c. c \<noteq> dq) (g @ t) = dropWhile (\<lambda>c. c \<noteq> dq) t"
    by (induction g) auto
  then show ?thesis
    unfolding calm_def by simp
qed

lemma calm_quoted:
  assumes "not_colon_first b"
  shows "calm (dq # b @ dq # t)"
  using assms by (cases b) (simp_all add: calm_def dq_def not_colon_first_def)

lemma calm_Nil: "calm []"
  by (simp add: calm_def)

lemma digit_char_not_dq: "n < 10 \<Longrightarrow> digit_char n \<noteq> dq"
proof
  assume n: "n < 10" and e: "digit_char n = dq"
  then have "(of_char (digit_char n) :: nat) = of_char dq"
    by simp
  with n show False
    by (simp add: digit_char_def dq_def)
qed

lemma show_nat_no_dq: "dq \<notin> set (show_nat n)"
proof (induction n rule: show_nat.induct)
  case (1 n)
  show ?case
  proof (cases "n < 10")
    case True
    from digit_char_not_dq [OF True] True show ?thesis
      by (subst show_nat.simps) auto
  next
    case False
    have "n mod 10 < 10"
      by simp
    from digit_char_not_dq [OF this] 1 [OF False] False show ?thesis
      by (subst show_nat.simps) auto
  qed
qed

lemma show_int_no_dq: "dq \<notin> set (show_int i)"
proof -
  have "dq \<noteq> CHR ''-''"
    by (simp add: dq_def)
  then show ?thesis
    by (simp add: show_int_def show_nat_no_dq)
qed

lemma indent_no_dq: "dq \<notin> set (indent n)"
  by (simp add: indent_def dq_def)

lemma hex_char_not_dq: "n < 16 \<Longrightarrow> hex_char n \<noteq> dq"
proof
  assume n: "n < 16" and e: "hex_char n = dq"
  then have "(of_char (hex_char n) :: nat) = of_char dq"
    by simp
  with n show False
    by (simp add: hex_char_def dq_def split: if_splits)
qed

lemma escape_char_no_dq: "c \<noteq> dq \<Longrightarrow> dq \<notin> set (escape_char c)"
proof -
  assume c: "c \<noteq> dq"
  have d: "(of_char c :: nat) < 32 \<Longrightarrow> of_char c div 16 < (16 :: nat)"
    by simp
  have m: "of_char c mod 16 < (16 :: nat)"
    by simp
  show ?thesis
    using c hex_char_not_dq [OF m] hex_char_not_dq [OF d]
    by (auto simp: escape_char_def dq_def)
qed

lemma json_body_no_dq: "dq \<notin> set s \<Longrightarrow> dq \<notin> set (json_body s)"
  by (induction s) (auto simp: json_body_def escape_char_no_dq)

lemma escape_char_hd: "\<exists>t. escape_char c = CHR 0x5C # t \<or> escape_char c = [c]"
  by (simp add: escape_char_def)

lemma json_body_not_colon_first: "not_colon_first s \<Longrightarrow> not_colon_first (json_body s)"
proof (cases s)
  case Nil
  then show ?thesis by (simp add: json_body_def not_colon_first_def)
next
  case (Cons c cs)
  assume "not_colon_first s"
  with Cons have "c \<noteq> CHR '':''"
    by (simp add: not_colon_first_def)
  with escape_char_hd [of c] Cons show ?thesis
    by (auto simp: json_body_def not_colon_first_def)
qed

lemma json_body_nonempty: "s \<noteq> [] \<Longrightarrow> json_body s \<noteq> []"
proof (cases s)
  case Nil
  assume "s \<noteq> []"
  with Nil show ?thesis by simp
next
  case (Cons c cs)
  with escape_char_hd [of c] show ?thesis
    by (auto simp: json_body_def)
qed

text \<open>The members of an array or object, one after the other.\<close>

lemma unquote_keys_members:
  assumes item: "\<And>x rest. x \<in> set xs \<Longrightarrow> calm rest \<Longrightarrow> not_colon_first rest \<Longrightarrow>
            unquote_keys (f x @ rest) = g x @ unquote_keys rest \<and> calm (f x @ rest)"
    and "calm tail" and "not_colon_first tail"
  shows "unquote_keys (join_with ('','' @ [nl]) (map f xs) @ tail)
           = join_with ('','' @ [nl]) (map g xs) @ unquote_keys tail \<and>
         calm (join_with ('','' @ [nl]) (map f xs) @ tail)"
  using item
proof (induction xs rule: induct_list012)
  case 1
  from assms(2) show ?case by simp
next
  case (2 x)
  from 2 [of x tail] assms(2,3) show ?case by simp
next
  case (3 x y ys)
  have sep: "dq \<notin> set ('','' @ [nl])"
    by (simp add: dq_def nl_def)
  have ih: "unquote_keys (join_with ('','' @ [nl]) (map f (y # ys)) @ tail)
           = join_with ('','' @ [nl]) (map g (y # ys)) @ unquote_keys tail \<and>
         calm (join_with ('','' @ [nl]) (map f (y # ys)) @ tail)"
    by (rule 3(2)) (use 3(3) in auto)
  define r where "r = ('','' @ [nl]) @ join_with ('','' @ [nl]) (map f (y # ys)) @ tail"
  have cr: "calm r"
    unfolding r_def calm_copy [OF sep] using ih by blast
  have nr: "not_colon_first r"
    unfolding r_def by (simp add: not_colon_first_def)
  have ur: "unquote_keys r = ('','' @ [nl]) @ join_with ('','' @ [nl]) (map g (y # ys)) @ unquote_keys tail"
    unfolding r_def unquote_keys_copy [OF sep] using ih by simp
  from 3(3) [of x r, OF _ cr nr] ur show ?case
    by (simp add: r_def)
qed

lemma unquote_keys_literal:
  assumes "dq \<notin> set g" and "calm rest"
  shows "unquote_keys (g @ rest) = g @ unquote_keys rest \<and> calm (g @ rest)"
  using assms by (simp add: unquote_keys_copy calm_copy)

lemma unquote_keys_stringify:
  "plain_json v \<Longrightarrow> calm rest \<Longrightarrow> not_colon_first rest \<Longrightarrow>
   unquote_keys (stringify ind v @ rest) = stringify_keys_unquoted ind v @ unquote_keys rest \<and>
   calm (stringify ind v @ rest)"
proof (induction ind v arbitrary: rest rule: stringify.induct)
  case (1 ind)
  with unquote_keys_literal [of "''null''" rest] show ?case
    by (simp add: dq_def)
next
  case (2 ind b)
  with unquote_keys_literal [of "''true''" rest] unquote_keys_literal [of "''false''" rest] show ?case
    by (simp add: dq_def)
next
  case (3 ind n)
  with unquote_keys_literal [OF show_int_no_dq, of rest "int_of n"] show ?case
    by simp
next
  case (4 ind s)
  then have nd: "dq \<notin> set (json_body s)" and nc: "not_colon_first (json_body s)"
    by (simp_all add: plain_string_def json_body_no_dq json_body_not_colon_first)
  from unquote_keys_value [OF nd 4(3,2)] calm_quoted [OF nc, of rest] show ?case
    by (simp add: quote_json_def)
next
  case (5 ind xs)
  show ?case
  proof (cases "xs = []")
    case True
    with 5(3) unquote_keys_literal [of "''[]''" rest] show ?thesis
      by (simp add: dq_def)
  next
    case False
    define tail where "tail = [nl] @ indent ind @ '']'' @ rest"
    have td: "dq \<notin> set ([nl] @ indent ind @ '']'')"
      using indent_no_dq [of ind] by (simp add: dq_def nl_def)
    have ct: "calm tail"
      using calm_copy [OF td, of rest] 5(3) by (simp add: tail_def)
    have nt: "not_colon_first tail"
      by (simp add: tail_def not_colon_first_def nl_def)
    have ut: "unquote_keys tail = [nl] @ indent ind @ '']'' @ unquote_keys rest"
      using unquote_keys_copy [OF td, of rest] by (simp add: tail_def)
    have item: "\<And>x r. x \<in> set xs \<Longrightarrow> calm r \<Longrightarrow> not_colon_first r \<Longrightarrow>
        unquote_keys ((indent (ind + 2) @ stringify (ind + 2) x) @ r) =
          (indent (ind + 2) @ stringify_keys_unquoted (ind + 2) x) @ unquote_keys r \<and>
        calm ((indent (ind + 2) @ stringify (ind + 2) x) @ r)"
    proof -
      fix x r
      assume x: "x \<in> set xs" and r: "calm r" "not_colon_first r"
      from 5(2) x have "plain_json x"
        by (simp add: list_all_iff)
      from 5(1) [OF False x this r]
      show "unquote_keys ((indent (ind + 2) @ stringify (ind + 2) x) @ r) =
          (indent (ind + 2) @ stringify_keys_unquoted (ind + 2) x) @ unquote_keys r \<and>
        calm ((indent (ind + 2) @ stringify (ind + 2) x) @ r)"
        by (simp add: unquote_keys_copy [OF indent_no_dq] calm_copy [OF indent_no_dq])
    qed
    from unquote_keys_members [of xs "\<lambda>x. indent (ind + 2) @ stringify (ind + 2) x"
        "\<lambda>x. indent (ind + 2) @ stringify_keys_unquoted (ind + 2) x" tail, OF item ct nt]
    have m: "unquote_keys (join_with ('','' @ [nl]) (map (\<lambda>x. indent (ind + 2) @ stringify (ind + 2) x) xs) @ tail)
           = join_with ('','' @ [nl]) (map (\<lambda>x. indent (ind + 2) @ stringify_keys_unquoted (ind + 2) x) xs)
             @ unquote_keys tail"
      and c: "calm (join_with ('','' @ [nl]) (map (\<lambda>x. indent (ind + 2) @ stringify (ind + 2) x) xs) @ tail)"
      by blast+
    have hd: "dq \<notin> set (''['' @ [nl])"
      by (simp add: dq_def nl_def)
    have e: "stringify ind (JArr xs) @ rest =
        (''['' @ [nl]) @ join_with ('','' @ [nl]) (map (\<lambda>x. indent (ind + 2) @ stringify (ind + 2) x) xs) @ tail"
      using False by (simp add: tail_def)
    show ?thesis
      unfolding e unquote_keys_copy [OF hd] calm_copy [OF hd] m ut using False c by simp
  qed
next
  case (6 ind kvs)
  show ?case
  proof (cases "kvs = []")
    case True
    with 6(3) unquote_keys_literal [of "''{}''" rest] show ?thesis
      by (simp add: dq_def)
  next
    case False
    define tail where "tail = [nl] @ indent ind @ ''}'' @ rest"
    have td: "dq \<notin> set ([nl] @ indent ind @ ''}'')"
      using indent_no_dq [of ind] by (simp add: dq_def nl_def)
    have ct: "calm tail"
      using calm_copy [OF td, of rest] 6(3) by (simp add: tail_def)
    have nt: "not_colon_first tail"
      by (simp add: tail_def not_colon_first_def nl_def)
    have ut: "unquote_keys tail = [nl] @ indent ind @ ''}'' @ unquote_keys rest"
      using unquote_keys_copy [OF td, of rest] by (simp add: tail_def)
    let ?f = "\<lambda>kv. indent (ind + 2) @ quote_json (fst kv) @ '': '' @ stringify (ind + 2) (snd kv)"
    let ?g = "\<lambda>kv. indent (ind + 2) @ json_body (fst kv) @ '': '' @ stringify_keys_unquoted (ind + 2) (snd kv)"
    have item: "\<And>kv r. kv \<in> set kvs \<Longrightarrow> calm r \<Longrightarrow> not_colon_first r \<Longrightarrow>
        unquote_keys (?f kv @ r) = ?g kv @ unquote_keys r \<and> calm (?f kv @ r)"
    proof -
      fix kv r
      assume kv: "kv \<in> set kvs" and r: "calm r" "not_colon_first r"
      from 6(2) kv have k: "fst kv \<noteq> []" "plain_string (fst kv)" and pv: "plain_json (snd kv)"
        by (simp_all add: list_all_iff)
      from k have nd: "dq \<notin> set (json_body (fst kv))" and ne: "json_body (fst kv) \<noteq> []"
        and nc: "not_colon_first (json_body (fst kv))"
        by (simp_all add: plain_string_def json_body_no_dq json_body_nonempty json_body_not_colon_first)
      from 6(1) [OF False kv pv r]
      have v: "unquote_keys (stringify (ind + 2) (snd kv) @ r) =
                 stringify_keys_unquoted (ind + 2) (snd kv) @ unquote_keys r" .. 
      have sp: "dq \<notin> set '' ''"
        by (simp add: dq_def)
      have e: "?f kv @ r = indent (ind + 2) @
                 (dq # json_body (fst kv) @ dq # CHR '':'' # ('' '' @ stringify (ind + 2) (snd kv) @ r))"
        by (simp add: quote_json_def)
      have "unquote_keys (?f kv @ r) = indent (ind + 2) @ json_body (fst kv) @ CHR '':'' #
              ('' '' @ stringify_keys_unquoted (ind + 2) (snd kv) @ unquote_keys r)"
        unfolding e unquote_keys_copy [OF indent_no_dq] unquote_keys_key [OF nd ne]
          unquote_keys_copy [OF sp] v ..
      moreover have "calm (?f kv @ r)"
        unfolding e calm_copy [OF indent_no_dq] by (rule calm_quoted [OF nc])
      ultimately show "unquote_keys (?f kv @ r) = ?g kv @ unquote_keys r \<and> calm (?f kv @ r)"
        by simp
    qed
    from unquote_keys_members [of kvs ?f ?g tail, OF item ct nt]
    have m: "unquote_keys (join_with ('','' @ [nl]) (map ?f kvs) @ tail)
           = join_with ('','' @ [nl]) (map ?g kvs) @ unquote_keys tail"
      and c: "calm (join_with ('','' @ [nl]) (map ?f kvs) @ tail)"
      by blast+
    have hd: "dq \<notin> set (''{'' @ [nl])"
      by (simp add: dq_def nl_def)
    have e: "stringify ind (JObj kvs) @ rest =
        (''{'' @ [nl]) @ join_with ('','' @ [nl]) (map ?f kvs) @ tail"
      using False by (simp add: tail_def)
    show ?thesis
      unfolding e unquote_keys_copy [OF hd] calm_copy [OF hd] m ut using False c by simp
  qed
qed

lemma unquote_keys_plain:
  "plain_json v \<Longrightarrow> unquote_keys (stringify ind v) = stringify_keys_unquoted ind v"
  using unquote_keys_stringify [of v "[]" ind]
  by (simp add: calm_Nil not_colon_first_def unquote_keys_Nil)

section \<open>The configuration updater and the dispatchers\<close>

text \<open>
  The updater writes, to the configuration file of the working directory, \<^verbatim>\<open>export default\<close>
  and the JSON text of the object in which every match of the expression is replaced by
  its group and a colon; for a configuration whose keys are not empty and whose keys and
  string values hold no double quote and do not begin with a colon, this is the
  serialization with its keys unquoted. The write is the only thing done, whether or not
  the file exists: no question is asked. When the write succeeds the file holds the text,
  whatever it held; when it raises, the error is caught and a failure result is returned,
  the file system being as it was.
\<close>

lemma updateConfigFile_overwrites:
  "let configPath = path_join [cwd', CONFIG_FILE E @ ''.ts''];
       configContent = ''export default '' @ unquote_keys (stringify 0 (JObj config'));
       r = fst (updateConfigFile E cwd' config' w);
       w' = snd (updateConfigFile E cwd' config' w)
   in path r = configPath \<and>
      events w' = events w @ [WriteFile configPath configContent] \<and>
      (plain_json (JObj config') \<longrightarrow>
         configContent = ''export default '' @ stringify_keys_unquoted 0 (JObj config')) \<and>
      (\<not> writeFails E configPath \<longrightarrow>
         success r \<and> fs w' = (fs w)\<lparr>files := (files (fs w))(configPath \<mapsto> configContent)\<rparr>) \<and>
      (writeFails E configPath \<longrightarrow>
         \<not> success r \<and> fs w' = fs w \<and>
         message r = ''Failed to update config file: '' @
                     error_text (IOError (errorMessage E ''writeFile'' configPath)))"
proof -
  define cp where "cp = path_join [cwd', CONFIG_FILE E @ ''.ts'']"
  define cc where "cc = ''export default '' @ unquote_keys (stringify 0 (JObj config'))"
  have a: "path (fst (updateConfigFile E cwd' config' w)) = cp"
    unfolding cp_def
    by (cases "writeFails E (path_join [cwd', CONFIG_FILE E @ ''.ts''])")
      (simp_all add: updateConfigFile_ok updateConfigFile_fails)
  have b: "events (snd (updateConfigFile E cwd' config' w)) = events w @ [WriteFile cp cc]"
    unfolding cp_def cc_def by (rule updateConfigFile_events)
  have c: "plain_json (JObj config') \<longrightarrow>
         cc = ''export default '' @ stringify_keys_unquoted 0 (JObj config')"
    unfolding cc_def using unquote_keys_plain [of "JObj config'" 0] by simp
  have d: "\<not> writeFails E cp \<longrightarrow>
         success (fst (updateConfigFile E cwd' config' w)) \<and>
         fs (snd (updateConfigFile E cwd' config' w)) = (fs w)\<lparr>files := (files (fs w))(cp \<mapsto> cc)\<rparr>"
    unfolding cp_def cc_def by (simp add: updateConfigFile_ok)
  have e: "writeFails E cp \<longrightarrow>
         \<not> success (fst (updateConfigFile E cwd' config' w)) \<and>
         fs (snd (updateConfigFile E cwd' config' w)) = fs w \<and>
         message (fst (updateConfigFile E cwd' config' w)) =
           ''Failed to update config file: '' @ error_text (IOError (errorMessage E ''writeFile'' cp))"
    unfolding cp_def by (simp add: updateConfigFile_fails)
  from a b c d e show ?thesis
    unfolding Let_def cp_def [symmetric] cc_def [symmetric] by blast
qed

text \<open>
  C9. The expression that unquotes the keys is applied to the whole JSON text, so it also
  matches inside a string value that holds a double quote followed by a colon. For the
  configuration below, whose \<^verbatim>\<open>publicPath\<close> is such a string, the text written loses the
  quote that opens the value and the one escaped inside it: it is not the serialization
  with its keys unquoted, and it is no literal at all.
\<close>

theorem updateConfigFile_unquotes_in_value:
  "files (fs (snd (updateConfigFile demo_env ''/p''
                     [(''entry'', JObj [(''client'', JStr ''src/client.tsx'')]),
                      (''publicPath'', JStr (''a'' @ [dq] @ '':b''))] empty_world)))
     ''/p/.tnfrc.ts''
   = Some (''export default {'' @ [nl]
           @ ''  entry: {'' @ [nl]
           @ ''    client: '' @ [dq] @ ''src/client.tsx'' @ [dq] @ [nl]
           @ ''  },'' @ [nl]
           @ ''  publicPath: a'' @ [CHR 0x5C] @ '':b'' @ [dq] @ [nl]
           @ ''}'') \<and>
   ''export default '' @ stringify_keys_unquoted 0
       (JObj [(''entry'', JObj [(''client'', JStr ''src/client.tsx'')]),
              (''publicPath'', JStr (''a'' @ [dq] @ '':b''))])
   = ''export default {'' @ [nl]
     @ ''  entry: {'' @ [nl]
     @ ''    client: '' @ [dq] @ ''src/client.tsx'' @ [dq] @ [nl]
     @ ''  },'' @ [nl]
     @ ''  publicPath: '' @ [dq] @ ''a'' @ [CHR 0x5C, dq] @ '':b'' @ [dq] @ [nl]
     @ ''}'' \<and>
   files (fs (snd (updateConfigFile demo_env ''/p''
                     [(''entry'', JObj [(''client'', JStr ''src/client.tsx'')]),
                      (''publicPath'', JStr (''a'' @ [dq] @ '':b''))] empty_world)))
     ''/p/.tnfrc.ts''
   \<noteq> Some (''export default '' @ stringify_keys_unquoted 0
              (JObj [(''entry'', JObj [(''client'', JStr ''src/client.tsx'')]),
                     (''publicPath'', JStr (''a'' @ [dq] @ '':b''))]))"
proof -
  let ?cfg = "[(''entry'', JObj [(''client'', JStr ''src/client.tsx'')]),
              (''publicPath'', JStr (''a'' @ [dq] @ '':b''))]"
  have p: "path_join [''/p'', CONFIG_FILE demo_env @ ''.ts''] = ''/p/.tnfrc.ts''"
    by code_simp
  have f: "\<not> writeFails demo_env ''/p/.tnfrc.ts''"
    by (simp add: demo_env_def)
  have u: "unquote_keys (stringify 0 (JObj ?cfg))
           = ''{'' @ [nl]
             @ ''  entry: {'' @ [nl]
             @ ''    client: '' @ [dq] @ ''src/client.tsx'' @ [dq] @ [nl]
             @ ''  },'' @ [nl]
             @ ''  publicPath: a'' @ [CHR 0x5C] @ '':b'' @ [dq] @ [nl]
             @ ''}''"
    by code_simp
  have s: "stringify_keys_unquoted 0 (JObj ?cfg)
           = ''{'' @ [nl]
             @ ''  entry: {'' @ [nl]
             @ ''    client: '' @ [dq] @ ''src/client.tsx'' @ [dq] @ [nl]
             @ ''  },'' @ [nl]
             @ ''  publicPath: '' @ [dq] @ ''a'' @ [CHR 0x5C, dq] @ '':b'' @ [dq] @ [nl]
             @ ''}''"
    by code_simp
  have n: "unquote_keys (stringify 0 (JObj ?cfg)) \<noteq> stringify_keys_unquoted 0 (JObj ?cfg)"
    by code_simp
  have w: "files (fs (snd (updateConfigFile demo_env ''/p'' ?cfg empty_world))) ''/p/.tnfrc.ts''
           = Some (''export default '' @ unquote_keys (stringify 0 (JObj ?cfg)))"
    unfolding updateConfigFile_files p using f by simp
  have a: "files (fs (snd (updateConfigFile demo_env ''/p'' ?cfg empty_world))) ''/p/.tnfrc.ts''
           = Some (''export default {'' @ [nl]
             @ ''  entry: {'' @ [nl]
             @ ''    client: '' @ [dq] @ ''src/client.tsx'' @ [dq] @ [nl]
             @ ''  },'' @ [nl]
             @ ''  publicPath: a'' @ [CHR 0x5C] @ '':b'' @ [dq] @ [nl]
             @ ''}'')"
    unfolding w u by simp
  have b: "''export default '' @ stringify_keys_unquoted 0 (JObj ?cfg)
           = ''export default {'' @ [nl]
             @ ''  entry: {'' @ [nl]
             @ ''    client: '' @ [dq] @ ''src/client.tsx'' @ [dq] @ [nl]
             @ ''  },'' @ [nl]
             @ ''  publicPath: '' @ [dq] @ ''a'' @ [CHR 0x5C, dq] @ '':b'' @ [dq] @ [nl]
             @ ''}''"
    unfolding s by simp
  have c: "files (fs (snd (updateConfigFile demo_env ''/p'' ?cfg empty_world))) ''/p/.tnfrc.ts''
           \<noteq> Some (''export default '' @ stringify_keys_unquoted 0 (JObj ?cfg))"
    unfolding w using n by simp
  from a b c show ?thesis
    by blast
qed

text \<open>
  C8. With the type omitted, the dispatcher asks a single choice between \<^verbatim>\<open>entry\<close> and
  \<^verbatim>\<open>tailwindcss\<close>: \<^verbatim>\<open>page\<close> is not offered. The dispatcher that reads the type from the
  arguments does not ask: with the type omitted it raises.
\<close>

theorem generate_type_omitted_counterexample:
  "''page'' \<notin> set generateCommands \<and>
   hd (events (snd (generate demo_env demo_opts empty_world))) =
     Select ''Select the command to initialize:'' [''entry'', ''tailwindcss''] \<and>
   generate_argv [''generate''] = Inl (Error ''Not implemented'')"
proof -
  have a: "''page'' \<notin> set generateCommands"
    by (simp add: generateCommands_def)
  have f: "falsy (type demo_opts)"
    by (simp add: falsy_def demo_opts_def)
  have s: "in_commandHandler (select demo_env ''Select the command to initialize:'' generateCommands)"
    by (simp add: demo_env_def in_commandHandler_def)
  define w1 where "w1 = emit (Select ''Select the command to initialize:'' generateCommands) empty_world"
  have "\<exists>new. events (snd (generate demo_env demo_opts empty_world)) = events w1 @ new"
  proof -
    have l: "force_client_entry (loadConfig demo_env (cwd demo_opts) (fs empty_world)) =
             Inr [(''entry'', JObj [(''client'', JStr ''src/client.tsx'')])]"
      by (simp add: demo_env_def force_client_entry_def)
    have sel: "select demo_env ''Select the command to initialize:'' generateCommands = ''entry''"
      by (simp add: demo_env_def)
    define o' where "o' = demo_opts\<lparr>config := [(''entry'', JObj [(''client'', JStr ''src/client.tsx'')])]\<rparr>"
    have g: "generate demo_env demo_opts empty_world =
             detached (generateEntry demo_env o' (emit (LoadConfig (cwd demo_opts)) w1))"
      using f s l sel by (simp add: generate_def Let_def w1_def o'_def)
    obtain after where "events (snd (generateEntry demo_env o' (emit (LoadConfig (cwd demo_opts)) w1))) =
        events (if \<not> existsSync (emit (LoadConfig (cwd demo_opts)) w1)
                       (path_join [cwd o', ''src/.'' @ FRAMEWORK_NAME demo_env])
               then sync_world demo_env (loadConfig demo_env (cwd o') (fs (emit (LoadConfig (cwd demo_opts)) w1)))
                      (cwd o') (path_join [cwd o', ''src/.'' @ FRAMEWORK_NAME demo_env]) ''development''
                      (emit (LoadConfig (cwd o')) (emit (LoadConfig (cwd demo_opts)) w1))
               else emit (LoadConfig (cwd demo_opts)) w1) @ after"
      using generateEntry_no_sync_after [OF refl, of demo_env o' "emit (LoadConfig (cwd demo_opts)) w1"]
      by blast
    then have "\<exists>new. events (snd (generateEntry demo_env o' (emit (LoadConfig (cwd demo_opts)) w1))) =
        events w1 @ new"
      by (auto split: if_splits)
    then show ?thesis
      unfolding g detached_def by (auto split: prod.splits sum.splits)
  qed
  then have b: "hd (events (snd (generate demo_env demo_opts empty_world))) =
     Select ''Select the command to initialize:'' [''entry'', ''tailwindcss'']"
    by (auto simp: w1_def empty_world_def generateCommands_def)
  have c: "generate_argv [''generate''] = Inl (Error ''Not implemented'')"
    by (simp add: generate_argv_def falsy_def)
  from a b c show ?thesis
    by blast
qed

text \<open>
  C8, amended. With the type omitted, the dispatcher asks the single choice between
  \<^verbatim>\<open>entry\<close> and \<^verbatim>\<open>tailwindcss\<close>, loads the configuration and forces its client entry; for
  a selection among the two it then runs the handler of that name on the request with
  this configuration. The dispatcher that reads the type from the arguments raises
  \<^verbatim>\<open>Not implemented\<close> when the type is omitted.
\<close>

theorem generate_type_omitted:
  assumes "falsy (type opts)"
    and "select E ''Select the command to initialize:'' [''entry'', ''tailwindcss''] = s"
    and "s \<in> set [''entry'', ''tailwindcss'']"
  shows
    "generate E opts w =
       (let w1 = emit (Select ''Select the command to initialize:'' [''entry'', ''tailwindcss'']) w;
            w2 = emit (LoadConfig (cwd opts)) w1
        in case force_client_entry (loadConfig E (cwd opts) (fs w)) of
             Inl e \<Rightarrow> (Inl e, w2)
           | Inr rawConfig \<Rightarrow>
               if s = ''entry'' then detached (generateEntry E (opts\<lparr>config := rawConfig\<rparr>) w2)
               else detached (generateTailwindcss E (opts\<lparr>config := rawConfig\<rparr>) w2)) \<and>
     (falsy (if 1 < length argv then Some (argv ! 1) else None) \<longrightarrow>
        generate_argv argv = Inl (Error ''Not implemented''))"
proof -
  from assms(3) have i: "in_commandHandler s"
    by (auto simp: in_commandHandler_def)
  from assms(3) have np: "s \<noteq> ''page''" and cases: "s = ''entry'' \<or> s = ''tailwindcss''"
    by auto
  have a: "generate E opts w =
       (let w1 = emit (Select ''Select the command to initialize:'' [''entry'', ''tailwindcss'']) w;
            w2 = emit (LoadConfig (cwd opts)) w1
        in case force_client_entry (loadConfig E (cwd opts) (fs w)) of
             Inl e \<Rightarrow> (Inl e, w2)
           | Inr rawConfig \<Rightarrow>
               if s = ''entry'' then detached (generateEntry E (opts\<lparr>config := rawConfig\<rparr>) w2)
               else detached (generateTailwindcss E (opts\<lparr>config := rawConfig\<rparr>) w2))"
    using assms(1,2) i np cases
    by (auto simp: generate_def Let_def generateCommands_def split: sum.splits)
  have b: "falsy (if 1 < length argv then Some (argv ! 1) else None) \<longrightarrow>
        generate_argv argv = Inl (Error ''Not implemented'')"
    by (simp add: generate_argv_def Let_def)
  from a b show ?thesis
    by blast
qed

theorem generate_type_omitted_witness:
  "falsy (type demo_opts) \<and>
   select demo_env ''Select the command to initialize:'' [''entry'', ''tailwindcss''] = ''entry'' \<and>
   ''entry'' \<in> set [''entry'', ''tailwindcss''] \<and>
   generate demo_env demo_opts empty_world =
     detached (generateEntry demo_env
       (demo_opts\<lparr>config := [(''entry'', JObj [(''client'', JStr ''src/client.tsx'')])]\<rparr>)
       (emit (LoadConfig ''/p'')
          (emit (Select ''Select the command to initialize:'' [''entry'', ''tailwindcss'']) empty_world))) \<and>
   falsy (if 1 < length [''generate''] then Some ([''generate''] ! 1) else None) \<and>
   generate_argv [''generate''] = Inl (Error ''Not implemented'')"
proof -
  have h1: "falsy (type demo_opts)"
    by (simp add: falsy_def demo_opts_def)
  have h2: "select demo_env ''Select the command to initialize:'' [''entry'', ''tailwindcss''] = ''entry''"
    by (simp add: demo_env_def)
  have h3: "''entry'' \<in> set [''entry'', ''tailwindcss'']"
    by simp
  have h4: "falsy (if 1 < length [''generate''] then Some ([''generate''] ! 1) else None)"
    by (simp add: falsy_def)
  have c: "cwd demo_opts = ''/p''"
    by (simp add: demo_opts_def)
  have l: "force_client_entry (loadConfig demo_env ''/p'' (fs empty_world)) =
             Inr [(''entry'', JObj [(''client'', JStr ''src/client.tsx'')])]"
    by (simp add: demo_env_def force_client_entry_def)
  note T = generate_type_omitted [OF h1 h2 h3, of empty_world "[''generate'']", unfolded Let_def c l]
  from T h4 have "generate demo_env demo_opts empty_world =
     detached (generateEntry demo_env
       (demo_opts\<lparr>config := [(''entry'', JObj [(''client'', JStr ''src/client.tsx'')])]\<rparr>)
       (emit (LoadConfig ''/p'')
          (emit (Select ''Select the command to initialize:'' [''entry'', ''tailwindcss'']) empty_world))) \<and>
     generate_argv [''generate''] = Inl (Error ''Not implemented'')"
    by simp
  with h1 h2 h3 h4 show ?thesis
    by blast
qed

end
